theory Spec2Isabelle
  imports Main "HOL-Library.Sublist"
begin

section \<open>The embedding gateway of pr_embedding\<close>

text \<open>
  A shallow embedding of \<^verbatim>\<open>src/app/config.py\<close>, \<^verbatim>\<open>src/app/llm.py\<close> and
  \<^verbatim>\<open>src/app/main.py\<close>. The libraries the code calls (the file system, the Hugging Face
  download, the llama.cpp engine) are parameters: each is a function of an external world
  state \<open>'s\<close> that returns an exception or a value, together with the new world state.
  Every call of such a library function is appended to a trace, so that what the code asks
  of its collaborators can be stated.

  Values are taken at the types the code annotates: a response of the engine is a
  dictionary of entry lists, an entry a dictionary; the vectors themselves are opaque
  (type \<open>'v\<close>), since the code only moves them. \<^verbatim>\<open>_load_llama\<close> is modelled twice: as a
  function, for a caller that runs alone, and as the steps of a thread, for callers that
  race; the two agree for a single caller.
\<close>

subsection \<open>Exceptions and Python built-ins\<close>

text \<open>The exceptions, all of them subclasses of \<^verbatim>\<open>Exception\<close>.\<close>

datatype exn =
    KeyError string
  | ValueError string
  | Raised string \<comment> \<open>any exception raised inside a library call, with its message\<close>

text \<open>\<^verbatim>\<open>str(exc)\<close>: a KeyError prints the repr of its key.\<close>

fun exn_str :: "exn \<Rightarrow> string" where
  "exn_str (KeyError k) = [CHR 0x27] @ k @ [CHR 0x27]"
| "exn_str (ValueError m) = m"
| "exn_str (Raised m) = m"

text \<open>\<^verbatim>\<open>range(start, stop, step)\<close> as the list of its values.\<close>

definition py_range :: "int \<Rightarrow> int \<Rightarrow> int \<Rightarrow> exn + int list" where
  "py_range start stop step =
     (if step = 0 then Inl (ValueError ''range() arg 3 must not be zero'')
      else if 0 < step then
        Inr (map (\<lambda>k. start + int k * step) [0..<nat ((stop - start + step - 1) div step)])
      else
        Inr (map (\<lambda>k. start + int k * step) [0..<nat ((start - stop - step - 1) div (- step))]))"

text \<open>\<^verbatim>\<open>xs[i:j]\<close>: both bounds are clipped to the list, a negative bound counts from the end.\<close>

definition slice_bound :: "nat \<Rightarrow> int \<Rightarrow> nat" where
  "slice_bound n i = (if i < 0 then nat (max (i + int n) 0) else nat (min i (int n)))"

definition py_slice :: "'a list \<Rightarrow> int \<Rightarrow> int \<Rightarrow> 'a list" where
  "py_slice xs i j =
     (let lo = slice_bound (length xs) i; hi = slice_bound (length xs) j
      in take (hi - lo) (drop lo xs))"

text \<open>\<^verbatim>\<open>a or b\<close> for an optional integer \<open>a\<close>: \<^verbatim>\<open>None\<close> and \<^verbatim>\<open>0\<close> are falsy.\<close>

definition py_or :: "int option \<Rightarrow> int \<Rightarrow> int" where
  "py_or a b = (case a of None \<Rightarrow> b | Some n \<Rightarrow> if n = 0 then b else n)"

subsection \<open>config.py\<close>

record Settings =
  server_host :: string
  server_port :: int
  model_repo_id :: string
  model_file :: string
  model_cache_dir :: string
  threads :: int
  llm_batch_size :: int \<comment> \<open>the field \<^verbatim>\<open>batch_size\<close>, alias \<^verbatim>\<open>LLM_BATCH_SIZE\<close>\<close>
  max_batch_size :: int
  context_window :: int
  server_timeout :: int
  embedding_pooling :: string

definition default_settings :: Settings where
  "default_settings =
     \<lparr>server_host = ''0.0.0.0'', server_port = 8000,
      model_repo_id = ''nomic-ai/nomic-embed-text-v1.5-GGUF'',
      model_file = ''nomic-embed-text-v1.5.Q4_K_M.gguf'',
      model_cache_dir = ''.models'', threads = 4, llm_batch_size = 64,
      max_batch_size = 32, context_window = 8192, server_timeout = 60,
      embedding_pooling = ''mean''\<rparr>"

text \<open>
  \<^verbatim>\<open>embedding_pooling\<close> is declared \<^verbatim>\<open>Literal["mean", "cls", "none"]\<close>; the record keeps
  it as the string that \<^verbatim>\<open>POOLING_OPTIONS.get\<close> looks up.
\<close>

subsection \<open>llm.py: the collaborators\<close>

datatype LlamaEmbeddingPoolingType = MEAN | CLS | NONE

definition POOLING_OPTIONS :: "(string \<times> LlamaEmbeddingPoolingType) list" where
  "POOLING_OPTIONS = [(''mean'', MEAN), (''cls'', CLS), (''none'', NONE)]"

text \<open>The keyword arguments of \<^verbatim>\<open>create_embedding\<close>; \<^verbatim>\<open>pooling_type\<close> may be absent.\<close>

record kwargs =
  kw_normalize :: bool
  kw_pooling_type :: "LlamaEmbeddingPoolingType option"

text \<open>The keyword arguments of the \<^verbatim>\<open>Llama\<close> constructor.\<close>

record llama_args =
  arg_model_path :: string
  arg_embedding :: bool
  arg_n_ctx :: int
  arg_n_threads :: int
  arg_n_batch :: int
  arg_n_gpu_layers :: int

text \<open>
  A response of the engine is a dictionary whose key \<^verbatim>\<open>data\<close> holds a list of entries;
  an entry is a dictionary that may hold a value under \<^verbatim>\<open>embedding\<close>. Dictionaries are
  association lists read with \<open>map_of\<close>.
\<close>

type_synonym 'v item = "(string \<times> 'v) list"
type_synonym 'v response = "(string \<times> 'v item list) list"

datatype ('h, 'v) event =
    Ev_mkdir string "exn + unit"
  | Ev_hf_hub_download string string string "exn + string"
  | Ev_Llama llama_args "exn + 'h"
  | Ev_create_embedding 'h "string list" kwargs "exn + 'v response"
  | Ev_lock_acquire
  | Ev_lock_release
  | Ev_log_info string
  | Ev_log_warning string
  | Ev_log_exception string

record ('s, 'h, 'v) env =
  mkdir :: "string \<Rightarrow> 's \<Rightarrow> (exn + unit) \<times> 's"
  hf_hub_download :: "string \<Rightarrow> string \<Rightarrow> string \<Rightarrow> 's \<Rightarrow> (exn + string) \<times> 's"
  Llama :: "llama_args \<Rightarrow> 's \<Rightarrow> (exn + 'h) \<times> 's"
  create_embedding :: "'h \<Rightarrow> string list \<Rightarrow> kwargs \<Rightarrow> 's \<Rightarrow> (exn + 'v response) \<times> 's"
  CREATE_EMBEDDING_ACCEPTS_POOLING :: bool

text \<open>
  The state of the process: the class attribute \<^verbatim>\<open>EmbeddingModel._instance\<close>, the
  attribute \<^verbatim>\<open>_model_path\<close> of the one \<^verbatim>\<open>EmbeddingModel\<close> object that
  \<^verbatim>\<open>get_embedding_model\<close> caches, the world of the collaborators and the trace.
\<close>

record ('s, 'h, 'v) state =
  EmbeddingModel_instance :: "'h option"
  model_path :: "string option"
  world :: 's
  trace :: "('h, 'v) event list"

definition emit :: "('h, 'v) event \<Rightarrow> ('s, 'h, 'v) state \<Rightarrow> ('s, 'h, 'v) state" where
  "emit e st = st\<lparr>trace := trace st @ [e]\<rparr>"

subsection \<open>llm.py: EmbeddingModel\<close>

definition download_model ::
  "('s, 'h, 'v) env \<Rightarrow> Settings \<Rightarrow> ('s, 'h, 'v) state \<Rightarrow> (exn + string) \<times> ('s, 'h, 'v) state" where
  "download_model env cfg st =
     (let (r, w1) = mkdir env (model_cache_dir cfg) (world st);
          st1 = emit (Ev_mkdir (model_cache_dir cfg) r) (st\<lparr>world := w1\<rparr>)
      in case r of
           Inl e \<Rightarrow> (Inl e, st1)
         | Inr _ \<Rightarrow>
            (let (p, w2) = hf_hub_download env (model_repo_id cfg) (model_file cfg)
                             (model_cache_dir cfg) (world st1);
                 st2 = emit (Ev_hf_hub_download (model_repo_id cfg) (model_file cfg)
                               (model_cache_dir cfg) p) (st1\<lparr>world := w2\<rparr>)
             in case p of
                  Inl e \<Rightarrow> (Inl e, st2)
                | Inr path \<Rightarrow> (Inr path, st2\<lparr>model_path := Some path\<rparr>)))"

definition construct_args :: "Settings \<Rightarrow> string \<Rightarrow> llama_args" where
  "construct_args cfg path =
     \<lparr>arg_model_path = path, arg_embedding = True, arg_n_ctx = context_window cfg,
      arg_n_threads = threads cfg, arg_n_batch = llm_batch_size cfg, arg_n_gpu_layers = 0\<rparr>"

text \<open>
  The body of the \<^verbatim>\<open>with EmbeddingModel._lock\<close> block, run by the thread that holds
  the lock. Leaving the block, by \<^verbatim>\<open>return\<close> or by an exception, releases the lock.
\<close>

definition load_locked ::
  "('s, 'h, 'v) env \<Rightarrow> Settings \<Rightarrow> ('s, 'h, 'v) state \<Rightarrow> (exn + 'h) \<times> ('s, 'h, 'v) state" where
  "load_locked env cfg st =
     (case EmbeddingModel_instance st of
        Some h \<Rightarrow> (Inr h, st)
      | None \<Rightarrow>
         (case download_model env cfg st of
            (Inl e, st1) \<Rightarrow> (Inl e, st1)
          | (Inr path, st1) \<Rightarrow>
             (let (r, w2) = Llama env (construct_args cfg path) (world st1);
                  st2 = emit (Ev_Llama (construct_args cfg path) r) (st1\<lparr>world := w2\<rparr>)
              in case r of
                   Inl e \<Rightarrow> (Inl e, st2)
                 | Inr h \<Rightarrow> (Inr h, st2\<lparr>EmbeddingModel_instance := Some h\<rparr>))))"

text \<open>\<^verbatim>\<open>_load_llama\<close> run by one thread while no other thread holds the lock.\<close>

definition load_llama ::
  "('s, 'h, 'v) env \<Rightarrow> Settings \<Rightarrow> ('s, 'h, 'v) state \<Rightarrow> (exn + 'h) \<times> ('s, 'h, 'v) state" where
  "load_llama env cfg st =
     (case EmbeddingModel_instance st of
        Some h \<Rightarrow> (Inr h, st)
      | None \<Rightarrow>
         (let (r, st1) = load_locked env cfg (emit Ev_lock_acquire st)
          in (r, emit Ev_lock_release st1)))"

datatype inputs = Str string | Seq "string list"

fun ensure_iterable :: "inputs \<Rightarrow> string list" where
  "ensure_iterable (Str texts) = [texts]"
| "ensure_iterable (Seq texts) = texts"

definition chunk_embeddings :: "'v item list \<Rightarrow> 'v list" where
  "chunk_embeddings items =
     map (\<lambda>item. the (map_of item ''embedding''))
       (filter (\<lambda>item. map_of item ''embedding'' \<noteq> None) items)"

definition pooling_of :: "Settings \<Rightarrow> LlamaEmbeddingPoolingType" where
  "pooling_of cfg =
     (case map_of POOLING_OPTIONS (embedding_pooling cfg) of
        Some p \<Rightarrow> p
      | None \<Rightarrow> the (map_of POOLING_OPTIONS ''mean''))"

definition make_kwargs :: "('s, 'h, 'v) env \<Rightarrow> bool \<Rightarrow> LlamaEmbeddingPoolingType \<Rightarrow> kwargs" where
  "make_kwargs env nrm pooling =
     \<lparr>kw_normalize = nrm,
      kw_pooling_type = (if CREATE_EMBEDDING_ACCEPTS_POOLING env then Some pooling else None)\<rparr>"

text \<open>The \<^verbatim>\<open>for index in range(...)\<close> loop of \<^verbatim>\<open>embed\<close>, over the values of the range.\<close>

fun embed_loop ::
  "('s, 'h, 'v) env \<Rightarrow> 'h \<Rightarrow> string list \<Rightarrow> int \<Rightarrow> bool \<Rightarrow> LlamaEmbeddingPoolingType \<Rightarrow>
   int list \<Rightarrow> 'v list \<Rightarrow> ('s, 'h, 'v) state \<Rightarrow> (exn + 'v list) \<times> ('s, 'h, 'v) state" where
  "embed_loop env llama payload resolved_batch nrm pooling [] embeddings st =
     (Inr embeddings, st)"
| "embed_loop env llama payload resolved_batch nrm pooling (index # rest) embeddings st =
     (let chunk = py_slice payload index (index + resolved_batch);
          kw = make_kwargs env nrm pooling;
          (r, w1) = create_embedding env llama chunk kw (world st);
          st1 = emit (Ev_create_embedding llama chunk kw r) (st\<lparr>world := w1\<rparr>)
      in case r of
           Inl e \<Rightarrow> (Inl e, st1)
         | Inr response \<Rightarrow>
            (case map_of response ''data'' of
               None \<Rightarrow> (Inl (KeyError ''data''), st1)
             | Some items \<Rightarrow>
                 embed_loop env llama payload resolved_batch nrm pooling rest
                   (embeddings @ chunk_embeddings items) st1))"

definition resolve_batch :: "Settings \<Rightarrow> int option \<Rightarrow> int" where
  "resolve_batch cfg batch_size =
     min (py_or batch_size (max_batch_size cfg)) (max_batch_size cfg)"

definition embed ::
  "('s, 'h, 'v) env \<Rightarrow> Settings \<Rightarrow> ('s, 'h, 'v) state \<Rightarrow> inputs \<Rightarrow> bool \<Rightarrow> int option \<Rightarrow>
   (exn + 'v list) \<times> ('s, 'h, 'v) state" where
  "embed env cfg st inps nrm batch_size =
     (case load_llama env cfg st of
        (Inl e, st1) \<Rightarrow> (Inl e, st1)
      | (Inr llama, st1) \<Rightarrow>
         (let payload = ensure_iterable inps
          in if payload = [] then (Inr [], st1)
             else
               (let resolved_batch = resolve_batch cfg batch_size;
                    pooling = pooling_of cfg
                in case py_range 0 (int (length payload)) resolved_batch of
                     Inl e \<Rightarrow> (Inl e, st1)
                   | Inr indices \<Rightarrow>
                       embed_loop env llama payload resolved_batch nrm pooling indices [] st1)))"

text \<open>\<^verbatim>\<open>get_embedding_model\<close> is cached: every caller shares one state.\<close>

definition init_state :: "'s \<Rightarrow> ('s, 'h, 'v) state" where
  "init_state w = \<lparr>EmbeddingModel_instance = None, model_path = None, world = w, trace = []\<rparr>"

subsection \<open>main.py\<close>

fun normalize_inputs :: "inputs \<Rightarrow> string list" where
  "normalize_inputs (Str raw_input) = [raw_input]"
| "normalize_inputs (Seq raw_input) = raw_input"

definition warm_model ::
  "('s, 'h, 'v) env \<Rightarrow> Settings \<Rightarrow> ('s, 'h, 'v) state \<Rightarrow> (exn + unit) \<times> ('s, 'h, 'v) state" where
  "warm_model env cfg st =
     (case embed env cfg st (Seq [''warmup'']) True None of
        (Inl e, st1) \<Rightarrow> (Inl e, st1)
      | (Inr _, st1) \<Rightarrow> (Inr (), st1))"

text \<open>
  The part of \<^verbatim>\<open>lifespan\<close> before its \<^verbatim>\<open>yield\<close>; the server accepts requests once
  it has returned \<open>Inr ()\<close>.
\<close>

definition lifespan ::
  "('s, 'h, 'v) env \<Rightarrow> Settings \<Rightarrow> ('s, 'h, 'v) state \<Rightarrow> (exn + unit) \<times> ('s, 'h, 'v) state" where
  "lifespan env cfg st =
     (case warm_model env cfg st of
        (Inr _, st1) \<Rightarrow> (Inr (), emit (Ev_log_info ''Embedding model loaded successfully.'') st1)
      | (Inl exc, st1) \<Rightarrow>
          (Inr (), emit (Ev_log_warning (''Model warmup failed: '' @ exn_str exc)) st1))"

record EmbeddingRequest =
  req_input :: inputs
  req_normalize :: bool
  req_batch_size :: "int option"

record 'v EmbeddingData =
  data_index :: int
  data_embedding :: 'v

record 'v EmbeddingResponse =
  resp_data :: "'v EmbeddingData list"
  resp_model :: string

record HTTPException =
  status_code :: int
  detail :: string

definition create_embeddings ::
  "('s, 'h, 'v) env \<Rightarrow> Settings \<Rightarrow> ('s, 'h, 'v) state \<Rightarrow> EmbeddingRequest \<Rightarrow>
   (HTTPException + 'v EmbeddingResponse) \<times> ('s, 'h, 'v) state" where
  "create_embeddings env cfg st request =
     (let inps = normalize_inputs (req_input request)
      in case embed env cfg st (Seq inps) (req_normalize request) (req_batch_size request) of
           (Inl exc, st1) \<Rightarrow>
             (Inl \<lparr>status_code = 500, detail = ''Embedding failure: '' @ exn_str exc\<rparr>,
              emit (Ev_log_exception ''Failed to generate embeddings.'') st1)
         | (Inr embeddings, st1) \<Rightarrow>
             (Inr \<lparr>resp_data = map (\<lambda>(i, vector). \<lparr>data_index = int i, data_embedding = vector\<rparr>)
                                 (enumerate 0 embeddings),
                   resp_model = model_repo_id cfg @ '':'' @ model_file cfg\<rparr>,
              st1))"

subsection \<open>Reading the trace\<close>

text \<open>The events a run appended, given the states before and after it.\<close>

definition new_events :: "('s, 'h, 'v) state \<Rightarrow> ('s, 'h, 'v) state \<Rightarrow> ('h, 'v) event list" where
  "new_events st st' = drop (length (trace st)) (trace st')"

text \<open>A call of \<^verbatim>\<open>create_embedding\<close>: the chunk, the keyword arguments, the outcome.\<close>

type_synonym 'v call = "string list \<times> kwargs \<times> (exn + 'v response)"

fun call_of :: "('h, 'v) event \<Rightarrow> 'v call list" where
  "call_of (Ev_create_embedding h c kw out) = [(c, kw, out)]"
| "call_of _ = []"

definition compute_calls :: "('h, 'v) event list \<Rightarrow> 'v call list" where
  "compute_calls es = concat (map call_of es)"

fun construction_of :: "('h, 'v) event \<Rightarrow> (llama_args \<times> (exn + 'h)) list" where
  "construction_of (Ev_Llama args out) = [(args, out)]"
| "construction_of _ = []"

definition constructions :: "('h, 'v) event list \<Rightarrow> (llama_args \<times> (exn + 'h)) list" where
  "constructions es = concat (map construction_of es)"

text \<open>The entries of a call's response; \<open>None\<close> when the call raised or has no \<^verbatim>\<open>data\<close>.\<close>

definition entries :: "exn + 'v response \<Rightarrow> 'v item list option" where
  "entries out = (case out of Inl _ \<Rightarrow> None | Inr response \<Rightarrow> map_of response ''data'')"

definition has_vector :: "'v item \<Rightarrow> bool" where
  "has_vector item = (map_of item ''embedding'' \<noteq> None)"

definition vector_of :: "'v item \<Rightarrow> 'v" where
  "vector_of item = the (map_of item ''embedding'')"

text \<open>A call returned exactly one entry per input string, each with a vector.\<close>

definition one_vector_per_input :: "'v call \<Rightarrow> bool" where
  "one_vector_per_input call =
     (case entries (snd (snd call)) of
        None \<Rightarrow> False
      | Some items \<Rightarrow> length items = length (fst call) \<and> list_all has_vector items)"

text \<open>
  The pairs (input string, vector the engine produced for it) of a call: the entry at
  position \<open>j\<close> of the response answers the string at position \<open>j\<close> of the chunk.
\<close>

definition produced :: "'v call \<Rightarrow> (string \<times> 'v) list" where
  "produced call =
     (case entries (snd (snd call)) of
        None \<Rightarrow> []
      | Some items \<Rightarrow> zip (fst call) (map vector_of items))"

subsection \<open>Stub collaborators\<close>

text \<open>
  A stub world counts the downloads attempted and the engine calls made. The download
  fails while fewer than \<open>offline\<close> attempts were made; the constructor succeeds; the
  engine's answer to its \<open>k\<close>-th call is \<open>engine k chunk\<close>.
\<close>

definition unit_vector :: "string \<Rightarrow> int list item" where
  "unit_vector s = [(''embedding'', [int (length s)])]"

definition good_engine :: "nat \<Rightarrow> string list \<Rightarrow> exn + int list response" where
  "good_engine k c = Inr [(''data'', map unit_vector c)]"

definition raising_engine :: "nat \<Rightarrow> string list \<Rightarrow> exn + int list response" where
  "raising_engine k c = (if k = 2 then Inl (Raised ''engine failure'') else good_engine k c)"

definition dropping_engine :: "nat \<Rightarrow> string list \<Rightarrow> exn + int list response" where
  "dropping_engine k c =
     Inr [(''data'', map (\<lambda>s. if s = ''b'' then [(''index'', [1])] else unit_vector s) c)]"

definition stub_env ::
  "nat \<Rightarrow> bool \<Rightarrow> (nat \<Rightarrow> string list \<Rightarrow> exn + int list response) \<Rightarrow>
   (nat \<times> nat, nat, int list) env" where
  "stub_env offline accepts engine =
     \<lparr>mkdir = (\<lambda>d w. (Inr (), w)),
      hf_hub_download = (\<lambda>repo file dir w.
         if fst w < offline then (Inl (Raised ''offline''), (Suc (fst w), snd w))
         else (Inr (dir @ ''/'' @ file), (Suc (fst w), snd w))),
      Llama = (\<lambda>args w. (Inr (fst w), w)),
      create_embedding = (\<lambda>h c kw w. (engine (snd w) c, (fst w, Suc (snd w)))),
      CREATE_EMBEDDING_ACCEPTS_POOLING = accepts\<rparr>"

definition stub_start :: "(nat \<times> nat, nat, int list) state" where
  "stub_start = init_state (0, 0)"

text \<open>The state after a handle was built: the scenario of a warm service.\<close>

definition stub_warm :: "(nat \<times> nat, nat, int list) state" where
  "stub_warm = (init_state (1, 0))\<lparr>EmbeddingModel_instance := Some 1,
                                   model_path := Some ''.models/m.gguf''\<rparr>"

subsection \<open>The run of the loop, read off the engine\<close>

text \<open>
  The outcomes of the engine calls that the loop of \<^verbatim>\<open>embed\<close> makes from the world
  \<open>w\<close>: the loop stops after the first call that raises or whose response has no
  \<^verbatim>\<open>data\<close>.
\<close>

fun loop_outs ::
  "('s, 'h, 'v) env \<Rightarrow> 'h \<Rightarrow> string list \<Rightarrow> int \<Rightarrow> kwargs \<Rightarrow> int list \<Rightarrow> 's \<Rightarrow>
   (exn + 'v response) list" where
  "loop_outs env llama payload resolved_batch kw [] w = []"
| "loop_outs env llama payload resolved_batch kw (index # rest) w =
     (let (out, w1) = create_embedding env llama
                        (py_slice payload index (index + resolved_batch)) kw w
      in out # (if entries out = None then []
                else loop_outs env llama payload resolved_batch kw rest w1))"

definition call_event ::
  "'h \<Rightarrow> string list \<Rightarrow> int \<Rightarrow> kwargs \<Rightarrow> int \<times> (exn + 'v response) \<Rightarrow> ('h, 'v) event" where
  "call_event llama payload resolved_batch kw p =
     Ev_create_embedding llama (py_slice payload (fst p) (fst p + resolved_batch)) kw (snd p)"

definition loop_error :: "(exn + 'v response) list \<Rightarrow> exn" where
  "loop_error outs = (case last outs of Inl e \<Rightarrow> e | Inr _ \<Rightarrow> KeyError ''data'')"

subsection \<open>llm.py: \<^verbatim>\<open>_load_llama\<close> run by several threads\<close>

text \<open>
  The control points of a thread inside \<^verbatim>\<open>_load_llama\<close>, named after the lines of
  \<^verbatim>\<open>llm.py\<close>. A step of a thread is one access to the shared attribute
  \<^verbatim>\<open>EmbeddingModel._instance\<close> or to the lock, or one call of a collaborator. A
  \<^verbatim>\<open>return\<close> hands back whatever \<^verbatim>\<open>_instance\<close> holds when it is read, so a returned
  value is an optional handle.
\<close>

datatype 'h pc =
    L55 \<comment> \<open>\<^verbatim>\<open>if EmbeddingModel._instance is not None\<close>, outside the lock\<close>
  | L56 \<comment> \<open>\<^verbatim>\<open>return EmbeddingModel._instance\<close>, outside the lock\<close>
  | L58 \<comment> \<open>\<^verbatim>\<open>with EmbeddingModel._lock\<close>: waiting for the lock\<close>
  | L59 \<comment> \<open>\<^verbatim>\<open>if EmbeddingModel._instance is not None\<close>, holding the lock\<close>
  | L60 \<comment> \<open>\<^verbatim>\<open>return EmbeddingModel._instance\<close>, holding the lock\<close>
  | L62 \<comment> \<open>\<^verbatim>\<open>model_path = self._download_model()\<close>\<close>
  | L63 string \<comment> \<open>the call \<^verbatim>\<open>Llama(model_path=...)\<close>\<close>
  | L63_assign 'h \<comment> \<open>the assignment of the new object to \<^verbatim>\<open>_instance\<close>\<close>
  | L71 \<comment> \<open>\<^verbatim>\<open>return EmbeddingModel._instance\<close>, at the end of the block\<close>
  | Exit_return "'h option" \<comment> \<open>leaving the \<^verbatim>\<open>with\<close> block by \<^verbatim>\<open>return\<close>\<close>
  | Exit_raise exn \<comment> \<open>leaving the \<^verbatim>\<open>with\<close> block by an exception\<close>
  | Returned "'h option"
  | Propagated exn

record ('s, 'h, 'v) system =
  shared :: "('s, 'h, 'v) state"
  lock_held :: bool
  pcs :: "'h pc list"

definition goto :: "nat \<Rightarrow> 'h pc \<Rightarrow> ('s, 'h, 'v) system \<Rightarrow> ('s, 'h, 'v) system" where
  "goto i p c = c\<lparr>pcs := (pcs c)[i := p]\<rparr>"

text \<open>
  One step of thread \<open>i\<close>; \<open>None\<close> when the thread has finished, or waits for a lock
  that another thread holds. Leaving the \<^verbatim>\<open>with\<close> block releases the lock. The steps
  of the threads interleave; \<^verbatim>\<open>_download_model\<close> is one step, since it runs under the lock
  and touches only the file system and \<^verbatim>\<open>_model_path\<close>, which no step outside the lock
  reads.
\<close>

definition thread_step ::
  "('s, 'h, 'v) env \<Rightarrow> Settings \<Rightarrow> nat \<Rightarrow> ('s, 'h, 'v) system \<Rightarrow> ('s, 'h, 'v) system option" where
  "thread_step env cfg i c =
     (if length (pcs c) \<le> i then None
      else case pcs c ! i of
        L55 \<Rightarrow>
          Some (goto i (if EmbeddingModel_instance (shared c) \<noteq> None then L56 else L58) c)
      | L56 \<Rightarrow> Some (goto i (Returned (EmbeddingModel_instance (shared c))) c)
      | L58 \<Rightarrow>
          if lock_held c then None
          else Some (goto i L59
                 (c\<lparr>shared := emit Ev_lock_acquire (shared c), lock_held := True\<rparr>))
      | L59 \<Rightarrow>
          Some (goto i (if EmbeddingModel_instance (shared c) \<noteq> None then L60 else L62) c)
      | L60 \<Rightarrow> Some (goto i (Exit_return (EmbeddingModel_instance (shared c))) c)
      | L62 \<Rightarrow>
          (case download_model env cfg (shared c) of
             (Inl e, s1) \<Rightarrow> Some (goto i (Exit_raise e) (c\<lparr>shared := s1\<rparr>))
           | (Inr path, s1) \<Rightarrow> Some (goto i (L63 path) (c\<lparr>shared := s1\<rparr>)))
      | L63 path \<Rightarrow>
          (let (r, w2) = Llama env (construct_args cfg path) (world (shared c));
               s2 = emit (Ev_Llama (construct_args cfg path) r) ((shared c)\<lparr>world := w2\<rparr>)
           in case r of
                Inl e \<Rightarrow> Some (goto i (Exit_raise e) (c\<lparr>shared := s2\<rparr>))
              | Inr h \<Rightarrow> Some (goto i (L63_assign h) (c\<lparr>shared := s2\<rparr>)))
      | L63_assign h \<Rightarrow>
          Some (goto i L71 (c\<lparr>shared := (shared c)\<lparr>EmbeddingModel_instance := Some h\<rparr>\<rparr>))
      | L71 \<Rightarrow> Some (goto i (Exit_return (EmbeddingModel_instance (shared c))) c)
      | Exit_return v \<Rightarrow>
          Some (goto i (Returned v)
                 (c\<lparr>shared := emit Ev_lock_release (shared c), lock_held := False\<rparr>))
      | Exit_raise e \<Rightarrow>
          Some (goto i (Propagated e)
                 (c\<lparr>shared := emit Ev_lock_release (shared c), lock_held := False\<rparr>))
      | Returned v \<Rightarrow> None
      | Propagated e \<Rightarrow> None)"

text \<open>
  An interleaving is a schedule: the list of the threads that step, in order. A schedule
  that names a thread which cannot step has no run.
\<close>

fun run ::
  "('s, 'h, 'v) env \<Rightarrow> Settings \<Rightarrow> nat list \<Rightarrow> ('s, 'h, 'v) system \<Rightarrow>
   ('s, 'h, 'v) system option" where
  "run env cfg [] c = Some c"
| "run env cfg (i # sched) c =
     (case thread_step env cfg i c of None \<Rightarrow> None | Some c' \<Rightarrow> run env cfg sched c')"

text \<open>\<open>n\<close> callers enter \<^verbatim>\<open>_load_llama\<close> together, in the process state \<open>st\<close>.\<close>

definition callers :: "nat \<Rightarrow> ('s, 'h, 'v) state \<Rightarrow> ('s, 'h, 'v) system" where
  "callers n st = \<lparr>shared = st, lock_held = False, pcs = replicate n L55\<rparr>"

fun holds_lock :: "'h pc \<Rightarrow> bool" where
  "holds_lock L55 = False"
| "holds_lock L56 = False"
| "holds_lock L58 = False"
| "holds_lock (Returned v) = False"
| "holds_lock (Propagated e) = False"
| "holds_lock _ = True"

fun finished :: "'h pc \<Rightarrow> bool" where
  "finished (Returned v) = True"
| "finished (Propagated e) = True"
| "finished _ = False"

fun failed :: "'h pc \<Rightarrow> bool" where
  "failed (Exit_raise e) = True"
| "failed (Propagated e) = True"
| "failed _ = False"

text \<open>The steps a thread can still take, at most.\<close>

fun remaining :: "'h pc \<Rightarrow> nat" where
  "remaining L55 = 8"
| "remaining L58 = 7"
| "remaining L59 = 6"
| "remaining L62 = 5"
| "remaining (L63 path) = 4"
| "remaining (L63_assign h) = 3"
| "remaining L71 = 2"
| "remaining L60 = 2"
| "remaining L56 = 1"
| "remaining (Exit_return v) = 1"
| "remaining (Exit_raise e) = 1"
| "remaining (Returned v) = 0"
| "remaining (Propagated e) = 0"

definition work :: "('s, 'h, 'v) system \<Rightarrow> nat" where
  "work c = sum_list (map remaining (pcs c))"

text \<open>What a control point knows about \<^verbatim>\<open>_instance\<close>, whose value is \<open>inst\<close>.\<close>

fun pc_ok :: "'h option \<Rightarrow> 'h pc \<Rightarrow> bool" where
  "pc_ok inst L56 = (inst \<noteq> None)"
| "pc_ok inst L60 = (inst \<noteq> None)"
| "pc_ok inst L71 = (inst \<noteq> None)"
| "pc_ok inst L62 = (inst = None)"
| "pc_ok inst (L63 path) = (inst = None)"
| "pc_ok inst (L63_assign h) = (inst = None)"
| "pc_ok inst (Exit_return v) = (v = inst \<and> inst \<noteq> None)"
| "pc_ok inst (Returned v) = (v = inst \<and> inst \<noteq> None)"
| "pc_ok inst _ = True"

text \<open>A construction that returned a handle.\<close>

definition built :: "llama_args \<times> (exn + 'h) \<Rightarrow> bool" where
  "built p = (case snd p of Inl e \<Rightarrow> False | Inr h \<Rightarrow> True)"

fun assigning :: "'h pc \<Rightarrow> bool" where
  "assigning (L63_assign h) = True"
| "assigning _ = False"

definition mutex :: "('s, 'h, 'v) system \<Rightarrow> bool" where
  "mutex c \<longleftrightarrow>
     (lock_held c \<longleftrightarrow> (\<exists>i<length (pcs c). holds_lock (pcs c ! i)))
     \<and> (\<forall>i<length (pcs c). \<forall>j<length (pcs c).
           holds_lock (pcs c ! i) \<and> holds_lock (pcs c ! j) \<longrightarrow> i = j)"

definition local_ok :: "('s, 'h, 'v) system \<Rightarrow> bool" where
  "local_ok c \<longleftrightarrow>
     (\<forall>i<length (pcs c). pc_ok (EmbeddingModel_instance (shared c)) (pcs c ! i))"

text \<open>
  The events since the callers entered: one construction has succeeded exactly when
  \<^verbatim>\<open>_instance\<close> is set or about to be assigned, and a construction that raised has left a
  thread that fails.
\<close>

definition trace_ok :: "('s, 'h, 'v) state \<Rightarrow> ('s, 'h, 'v) system \<Rightarrow> bool" where
  "trace_ok st0 c \<longleftrightarrow>
     (\<exists>es. trace (shared c) = trace st0 @ es
        \<and> length (filter built (constructions es))
            = (if EmbeddingModel_instance (shared c) \<noteq> None
                  \<or> (\<exists>k<length (pcs c). assigning (pcs c ! k)) then 1 else 0)
        \<and> ((\<exists>p\<in>set (constructions es). \<not> built p)
             \<longrightarrow> (\<exists>k<length (pcs c). failed (pcs c ! k))))"

text \<open>The invariant of every interleaving that starts in the state \<open>st0\<close>.\<close>

definition load_inv :: "('s, 'h, 'v) state \<Rightarrow> ('s, 'h, 'v) system \<Rightarrow> bool" where
  "load_inv st0 c \<longleftrightarrow> mutex c \<and> local_ok c \<and> trace_ok st0 c"

section \<open>Properties\<close>

subsection \<open>Python built-ins\<close>

lemma concat_take_drop:
  "concat (map (\<lambda>k. take b (drop (k * b) xs)) [0..<m]) = take (m * b) xs"
proof (induction m)
  case 0
  then show ?case by simp
next
  case (Suc m)
  have "take (Suc m * b) xs = take (m * b) xs @ take b (drop (m * b) xs)"
    using take_add [of "m * b" b xs] by (simp add: add.commute)
  with Suc show ?case by simp
qed

lemma py_slice_chunk:
  assumes "0 < b" "0 \<le> i"
  shows "py_slice xs i (i + b) = take (nat b) (drop (nat i) xs)"
proof (cases "i \<le> int (length xs)")
  case True
  then show ?thesis using assms
    apply (simp add: py_slice_def slice_bound_def Let_def min_def)
    apply (auto simp: nat_diff_distrib' le_nat_iff nat_add_distrib)
    done
next
  case False
  then show ?thesis using assms
    by (simp add: py_slice_def slice_bound_def Let_def min_def)
qed

subsection \<open>The trace of the loop\<close>

lemma compute_calls_append [simp]:
  "compute_calls (xs @ ys) = compute_calls xs @ compute_calls ys"
  by (simp add: compute_calls_def)

lemma compute_calls_Nil [simp]: "compute_calls [] = []"
  by (simp add: compute_calls_def)

lemma compute_calls_Cons [simp]: "compute_calls (e # es) = call_of e @ compute_calls es"
  by (simp add: compute_calls_def)

lemma loop_outs_length:
  "length (loop_outs env h payload b kw indices w) \<le> length indices"
  by (induction indices arbitrary: w) (auto simp: Let_def split: prod.split)

lemma loop_outs_Nil_iff [simp]:
  "loop_outs env h payload b kw indices w = [] \<longleftrightarrow> indices = []"
  by (cases indices) (auto simp: Let_def split: prod.split)

lemma loop_outs_short:
  "length (loop_outs env h payload b kw indices w) < length indices \<Longrightarrow>
   loop_outs env h payload b kw indices w \<noteq> [] \<and>
   entries (last (loop_outs env h payload b kw indices w)) = None"
  by (induction indices arbitrary: w) (auto simp: Let_def split: prod.split if_splits)

lemma loop_outs_butlast:
  "out \<in> set (butlast (loop_outs env h payload b kw indices w)) \<Longrightarrow> entries out \<noteq> None"
  by (induction indices arbitrary: w) (auto simp: Let_def split: prod.splits if_splits)

lemma embed_loop_trace:
  "trace (snd (embed_loop env h payload b nrm pooling indices acc st)) =
   trace st @ map (call_event h payload b (make_kwargs env nrm pooling))
     (zip indices (loop_outs env h payload b (make_kwargs env nrm pooling) indices (world st)))"
proof (induction indices arbitrary: acc st)
  case Nil
  then show ?case by simp
next
  case (Cons i rest)
  show ?case
    by (auto simp: Let_def emit_def call_event_def entries_def Cons
        split: prod.split sum.split option.split)
qed

lemma embed_loop_result:
  "fst (embed_loop env h payload b nrm pooling indices acc st) =
   (let outs = loop_outs env h payload b (make_kwargs env nrm pooling) indices (world st)
    in if length outs = length indices \<and> list_all (\<lambda>out. entries out \<noteq> None) outs
       then Inr (acc @ concat (map (\<lambda>out. chunk_embeddings (the (entries out))) outs))
       else Inl (loop_error outs))"
proof (induction indices arbitrary: acc st)
  case Nil
  then show ?case by simp
next
  case (Cons i rest)
  show ?case
    using loop_outs_length [of env h payload b "make_kwargs env nrm pooling" rest]
    apply (simp add: Let_def emit_def entries_def Cons loop_error_def
        split: prod.split sum.split option.split)
    apply (auto simp: Let_def entries_def)
    done
qed

subsection \<open>A bare string is a batch of one\<close>

text \<open>
  Claim C10. For every string \<open>s\<close>, flag and batch size, \<^verbatim>\<open>embed(s, ...)\<close> gives the same
  result, and leaves the same state, as \<^verbatim>\<open>embed([s], ...)\<close>: \<^verbatim>\<open>_ensure_iterable\<close>
  wraps a bare string into a one-element list instead of iterating its characters, and
  so does \<^verbatim>\<open>_normalize_inputs\<close> of the HTTP handler.
\<close>

theorem embed_bare_string_is_singleton:
  "embed env cfg st (Str s) nrm bs = embed env cfg st (Seq [s]) nrm bs
   \<and> ensure_iterable (Str s) = [s]
   \<and> normalize_inputs (Str s) = [s]
   \<and> create_embeddings env cfg st \<lparr>req_input = Str s, req_normalize = nrm, req_batch_size = bs\<rparr>
     = create_embeddings env cfg st
         \<lparr>req_input = Seq [s], req_normalize = nrm, req_batch_size = bs\<rparr>"
  by (simp add: embed_def create_embeddings_def split: prod.split sum.split)

subsection \<open>Acquiring the handle\<close>

lemma download_model_trace:
  "\<exists>es. trace (snd (download_model env cfg st)) = trace st @ es \<and> compute_calls es = []
        \<and> constructions es = []"
  by (auto simp: download_model_def Let_def emit_def constructions_def
      split: prod.split sum.split)

lemma download_model_instance:
  "EmbeddingModel_instance (snd (download_model env cfg st)) = EmbeddingModel_instance st"
  by (auto simp: download_model_def Let_def emit_def split: prod.split sum.split)

lemma load_locked_trace:
  "\<exists>es. trace (snd (load_locked env cfg st)) = trace st @ es \<and> compute_calls es = []"
proof (cases "EmbeddingModel_instance st")
  case None
  obtain r st1 where d: "download_model env cfg st = (r, st1)"
    by (cases "download_model env cfg st")
  from download_model_trace [of env cfg st] d obtain es
    where es: "trace st1 = trace st @ es" "compute_calls es = []" by auto
  show ?thesis using None d es
    by (auto simp: load_locked_def Let_def emit_def split: prod.split sum.split)
next
  case (Some h)
  then show ?thesis by (simp add: load_locked_def)
qed

lemma load_llama_trace:
  "\<exists>es. trace (snd (load_llama env cfg st)) = trace st @ es \<and> compute_calls es = []"
proof (cases "EmbeddingModel_instance st")
  case None
  from load_locked_trace [of env cfg "emit Ev_lock_acquire st"] obtain es
    where "trace (snd (load_locked env cfg (emit Ev_lock_acquire st)))
           = trace (emit Ev_lock_acquire st) @ es" "compute_calls es = []" by auto
  then show ?thesis using None
    by (auto simp: load_llama_def Let_def emit_def split: prod.split)
next
  case (Some h)
  then show ?thesis by (simp add: load_llama_def)
qed

lemma load_llama_fast: "EmbeddingModel_instance st = Some h \<Longrightarrow> load_llama env cfg st = (Inr h, st)"
  by (simp add: load_llama_def)

lemma load_locked_instance:
  "load_locked env cfg st = (r, st') \<Longrightarrow>
   (case r of Inl e \<Rightarrow> EmbeddingModel_instance st = None \<and> EmbeddingModel_instance st' = None
            | Inr h \<Rightarrow> EmbeddingModel_instance st' = Some h)"
  using download_model_instance [of env cfg st]
  by (auto simp: load_locked_def Let_def emit_def split: prod.splits sum.splits option.splits)

lemma load_llama_instance:
  "load_llama env cfg st = (r, st') \<Longrightarrow>
   (case r of Inl e \<Rightarrow> EmbeddingModel_instance st = None \<and> EmbeddingModel_instance st' = None
            | Inr h \<Rightarrow> EmbeddingModel_instance st' = Some h)"
  using load_locked_instance [of env cfg "emit Ev_lock_acquire st"]
  by (auto simp: load_llama_def Let_def emit_def split: prod.splits sum.splits option.splits)

lemma new_events_append:
  "trace st' = trace st @ es \<Longrightarrow> new_events st st' = es"
  by (simp add: new_events_def)

subsection \<open>The calls and the result of embed\<close>

lemma embed_new_calls:
  assumes "load_llama env cfg st = (r1, st1)"
  shows "compute_calls (new_events st (snd (embed env cfg st inps nrm bs))) =
    (case r1 of
       Inl e \<Rightarrow> []
     | Inr h \<Rightarrow>
        if ensure_iterable inps = [] then []
        else (case py_range 0 (int (length (ensure_iterable inps))) (resolve_batch cfg bs) of
                Inl e \<Rightarrow> []
              | Inr indices \<Rightarrow>
                 compute_calls (map (call_event h (ensure_iterable inps) (resolve_batch cfg bs)
                        (make_kwargs env nrm (pooling_of cfg)))
                   (zip indices (loop_outs env h (ensure_iterable inps) (resolve_batch cfg bs)
                        (make_kwargs env nrm (pooling_of cfg)) indices (world st1))))))"
proof -
  from load_llama_trace [of env cfg st] assms obtain es
    where es: "trace st1 = trace st @ es" "compute_calls es = []" by auto
  show ?thesis
    using assms es
    by (auto simp: embed_def Let_def new_events_def embed_loop_trace split: sum.split)
qed

lemma embed_result:
  assumes "load_llama env cfg st = (r1, st1)"
  shows "fst (embed env cfg st inps nrm bs) =
    (case r1 of
       Inl e \<Rightarrow> Inl e
     | Inr h \<Rightarrow>
        if ensure_iterable inps = [] then Inr []
        else (case py_range 0 (int (length (ensure_iterable inps))) (resolve_batch cfg bs) of
                Inl e \<Rightarrow> Inl e
              | Inr indices \<Rightarrow>
                 (let outs = loop_outs env h (ensure_iterable inps) (resolve_batch cfg bs)
                        (make_kwargs env nrm (pooling_of cfg)) indices (world st1)
                  in if length outs = length indices \<and> list_all (\<lambda>out. entries out \<noteq> None) outs
                     then Inr (concat (map (\<lambda>out. chunk_embeddings (the (entries out))) outs))
                     else Inl (loop_error outs))))"
  using assms by (auto simp: embed_def Let_def embed_loop_result split: sum.split)

lemma compute_calls_call_events:
  "compute_calls (map (call_event h payload b kw) ps) =
   map (\<lambda>p. (py_slice payload (fst p) (fst p + b), kw, snd p)) ps"
  by (induction ps) (auto simp: call_event_def)

lemma py_range_pos:
  assumes "0 < b"
  shows "py_range 0 (int n) b = Inr (map (\<lambda>k. int k * b) [0..<(n + nat b - 1) div nat b])"
proof -
  obtain c where c: "b = int c" "0 < c" using assms
    by (metis nat_eq_iff2 zero_less_nat_eq less_imp_le)
  have e: "int n + int c - 1 = int (n + c - 1)" using c by simp
  have "(int n + int c - 1) div int c = int ((n + c - 1) div c)"
    unfolding e by (simp add: zdiv_int)
  then have "nat ((int n + b - 1) div b) = (n + nat b - 1) div nat b"
    using c by simp
  then show ?thesis using assms by (simp add: py_range_def)
qed

lemma chunk_count_covers:
  assumes "0 < (b::nat)"
  shows "n \<le> (n + b - 1) div b * b"
proof -
  have "n + b - 1 = (n + b - 1) div b * b + (n + b - 1) mod b" by simp
  moreover have "(n + b - 1) mod b < b" using assms by simp
  ultimately show ?thesis by linarith
qed

lemma chunk_start_in_range:
  assumes "0 < (b::nat)" "k < (n + b - 1) div b"
  shows "k * b < n"
proof -
  from assms have "Suc k \<le> (n + b - 1) div b" by simp
  then have "Suc k * b \<le> n + b - 1"
    using assms(1) by (simp only: less_eq_div_iff_mult_less_eq)
  then have "k * b + b \<le> n + b - 1" by (simp add: add.commute)
  with assms(1) show ?thesis by linarith
qed

subsection \<open>Empty input\<close>

text \<open>
  Claim C6, amended. \<^verbatim>\<open>embed\<close> acquires the handle before it looks at its inputs. With an
  empty input sequence it never calls \<^verbatim>\<open>create_embedding\<close>; it returns the empty result
  with no error when the acquisition succeeds, in particular whenever a handle already
  exists (then the state is unchanged), and it fails with the acquisition's exception
  otherwise.
\<close>

theorem embed_empty_inputs:
  "embed env cfg st (Seq []) nrm bs =
     (case load_llama env cfg st of
        (Inl e, st1) \<Rightarrow> (Inl e, st1)
      | (Inr h, st1) \<Rightarrow> (Inr [], st1))
   \<and> compute_calls (new_events st (snd (embed env cfg st (Seq []) nrm bs))) = []
   \<and> (EmbeddingModel_instance st \<noteq> None \<longrightarrow> embed env cfg st (Seq []) nrm bs = (Inr [], st))"
proof -
  obtain r1 st1 where l: "load_llama env cfg st = (r1, st1)"
    by (cases "load_llama env cfg st")
  have a: "embed env cfg st (Seq []) nrm bs =
     (case load_llama env cfg st of
        (Inl e, st1) \<Rightarrow> (Inl e, st1)
      | (Inr h, st1) \<Rightarrow> (Inr [], st1))"
    by (simp add: embed_def split: prod.split sum.split)
  have b: "compute_calls (new_events st (snd (embed env cfg st (Seq []) nrm bs))) = []"
    using embed_new_calls [OF l, of "Seq []" nrm bs] by (simp split: sum.split)
  have c: "EmbeddingModel_instance st \<noteq> None \<longrightarrow> embed env cfg st (Seq []) nrm bs = (Inr [], st)"
    by (auto simp: a load_llama_fast)
  from a b c show ?thesis by blast
qed

theorem embed_empty_inputs_witness:
  "EmbeddingModel_instance stub_warm \<noteq> None
   \<and> embed (stub_env 0 True good_engine) default_settings stub_warm (Seq []) True None
     = (Inr [], stub_warm)"
proof -
  have "EmbeddingModel_instance stub_warm \<noteq> None"
    by (simp add: stub_warm_def init_state_def)
  with embed_empty_inputs [of "stub_env 0 True good_engine" default_settings stub_warm True None]
  show ?thesis by blast
qed

text \<open>
  The claim as stated (an empty input always gives an empty result with no error) fails
  when no handle exists yet and the download raises.
\<close>

theorem embed_empty_inputs_load_failure_counterexample:
  "fst (embed (stub_env 1 True good_engine) default_settings stub_start (Seq []) True None)
     = Inl (Raised ''offline'')
   \<and> fst (embed (stub_env 1 True good_engine) default_settings stub_start (Seq []) True None)
     \<noteq> Inr []"
  by (simp add: embed_def load_llama_def load_locked_def download_model_def stub_env_def
      stub_start_def init_state_def default_settings_def emit_def Let_def)

subsection \<open>The four ways a call of embed can go\<close>

lemma embed_cases [consumes 1, case_names load_failed empty bad_range loop]:
  assumes run: "embed env cfg st inps nrm bs = (r, st')"
  obtains
    e st1 where "load_llama env cfg st = (Inl e, st1)" "r = Inl e"
      "compute_calls (new_events st st') = []"
  | h st1 where "load_llama env cfg st = (Inr h, st1)" "ensure_iterable inps = []"
      "r = Inr []" "compute_calls (new_events st st') = []"
  | h st1 e where "load_llama env cfg st = (Inr h, st1)" "ensure_iterable inps \<noteq> []"
      "py_range 0 (int (length (ensure_iterable inps))) (resolve_batch cfg bs) = Inl e"
      "r = Inl e" "compute_calls (new_events st st') = []"
  | h st1 indices outs where "load_llama env cfg st = (Inr h, st1)"
      "ensure_iterable inps \<noteq> []"
      "py_range 0 (int (length (ensure_iterable inps))) (resolve_batch cfg bs) = Inr indices"
      "outs = loop_outs env h (ensure_iterable inps) (resolve_batch cfg bs)
                (make_kwargs env nrm (pooling_of cfg)) indices (world st1)"
      "compute_calls (new_events st st') =
         map (\<lambda>p. (py_slice (ensure_iterable inps) (fst p) (fst p + resolve_batch cfg bs),
                    make_kwargs env nrm (pooling_of cfg), snd p)) (zip indices outs)"
      "r = (if length outs = length indices \<and> list_all (\<lambda>out. entries out \<noteq> None) outs
            then Inr (concat (map (\<lambda>out. chunk_embeddings (the (entries out))) outs))
            else Inl (loop_error outs))"
proof -
  obtain r1 st1 where l: "load_llama env cfg st = (r1, st1)"
    by (cases "load_llama env cfg st")
  note c = embed_new_calls [OF l, of inps nrm bs]
  note f = embed_result [OF l, of inps nrm bs]
  from run have r: "fst (embed env cfg st inps nrm bs) = r"
    and s: "snd (embed env cfg st inps nrm bs) = st'" by simp_all
  show thesis
  proof (cases r1)
    case (Inl e)
    with l c f r s that(1) show thesis by simp
  next
    case (Inr h)
    show thesis
    proof (cases "ensure_iterable inps = []")
      case True
      with Inr l c f r s that(2) show thesis by simp
    next
      case False
      show thesis
      proof (cases "py_range 0 (int (length (ensure_iterable inps))) (resolve_batch cfg bs)")
        case (Inl e)
        with Inr False l c f r s that(3) show thesis by simp
      next
        case range: (Inr indices)
        show thesis
          using that(4) [OF _ False range refl] Inr False range l c f r s
          by (simp add: compute_calls_call_events Let_def)
      qed
    qed
  qed
qed

lemma last_of_unusable:
  assumes "out \<in> set outs" "entries out = None"
    "\<forall>x\<in>set (butlast outs). entries x \<noteq> None"
  shows "outs \<noteq> [] \<and> last outs = out"
proof -
  from assms(1) have ne: "outs \<noteq> []" by auto
  have "out \<notin> set (butlast outs)" using assms(2,3) by blast
  moreover from ne have "outs = butlast outs @ [last outs]" by simp
  then have "set outs = set (butlast outs) \<union> {last outs}"
    by (metis list.simps(15) set_append empty_set Un_commute insert_is_Un)
  ultimately show ?thesis using assms(1) ne by blast
qed

subsection \<open>The call that stops the loop\<close>

lemma embed_failing_call:
  assumes run: "embed env cfg st inps nrm bs = (r, st')"
    and bad: "(c, kw, Inl e) \<in> set (compute_calls (new_events st st'))"
  shows "r = Inl e"
using run proof (cases rule: embed_cases)
  case (loop h st1 indices outs)
  from bad loop(5) have mem: "Inl e \<in> set outs"
    by (auto dest: set_zip_rightD)
  have ok: "\<forall>x\<in>set (butlast outs). entries x \<noteq> None"
    unfolding loop(4) by (intro ballI) (rule loop_outs_butlast)
  have "outs \<noteq> [] \<and> last outs = Inl e"
    using last_of_unusable [OF mem _ ok] by (simp add: entries_def)
  moreover from mem have "\<not> list_all (\<lambda>out. entries out \<noteq> None) outs"
    by (force simp: list_all_iff entries_def)
  ultimately show ?thesis using loop(6) by (simp add: loop_error_def)
qed (use bad in auto)

subsection \<open>Failure of the whole call\<close>

lemma embed_normalized_inputs:
  "embed env cfg st (Seq (normalize_inputs inps)) nrm bs = embed env cfg st inps nrm bs"
  by (cases inps) (simp_all add: embed_def split: prod.split sum.split)

text \<open>
  Claim C4. If \<^verbatim>\<open>create_embedding\<close> raises for any chunk of an \<^verbatim>\<open>embed\<close> call, the
  call as a whole fails with that exception: its result is an error and carries no
  vector of the chunks already computed. The HTTP handler turns it into a single
  \<^verbatim>\<open>HTTPException\<close> with status 500.
\<close>

theorem compute_failure_fails_whole_call:
  assumes "embed env cfg st inps nrm bs = (r, st')"
    and "(c, kw, Inl e) \<in> set (compute_calls (new_events st st'))"
  shows "r = Inl e
    \<and> fst (create_embeddings env cfg st
             \<lparr>req_input = inps, req_normalize = nrm, req_batch_size = bs\<rparr>)
      = Inl \<lparr>status_code = 500, detail = ''Embedding failure: '' @ exn_str e\<rparr>"
proof -
  from assms have r: "r = Inl e" by (rule embed_failing_call)
  with assms(1) show ?thesis
    by (simp add: create_embeddings_def embed_normalized_inputs)
qed

theorem compute_failure_fails_whole_call_witness:
  "([''c''], \<lparr>kw_normalize = True, kw_pooling_type = Some MEAN\<rparr>, Inl (Raised ''engine failure''))
     \<in> set (compute_calls (new_events stub_start
          (snd (embed (stub_env 0 True raising_engine) (default_settings\<lparr>max_batch_size := 1\<rparr>)
                 stub_start (Seq [''a'', ''b'', ''c'', ''d'', ''e'']) True None))))
   \<and> fst (embed (stub_env 0 True raising_engine) (default_settings\<lparr>max_batch_size := 1\<rparr>)
            stub_start (Seq [''a'', ''b'', ''c'', ''d'', ''e'']) True None)
     = Inl (Raised ''engine failure'')
   \<and> fst (create_embeddings (stub_env 0 True raising_engine)
            (default_settings\<lparr>max_batch_size := 1\<rparr>) stub_start
            \<lparr>req_input = Seq [''a'', ''b'', ''c'', ''d'', ''e''], req_normalize = True,
             req_batch_size = None\<rparr>)
     = Inl \<lparr>status_code = 500, detail = ''Embedding failure: engine failure''\<rparr>"
proof -
  let ?R = "embed (stub_env 0 True raising_engine) (default_settings\<lparr>max_batch_size := 1\<rparr>)
                 stub_start (Seq [''a'', ''b'', ''c'', ''d'', ''e'']) True None"
  have run: "?R = (fst ?R, snd ?R)" by simp
  have bad: "([''c''], \<lparr>kw_normalize = True, kw_pooling_type = Some MEAN\<rparr>,
               Inl (Raised ''engine failure''))
     \<in> set (compute_calls (new_events stub_start (snd ?R)))"
    by code_simp
  from compute_failure_fails_whole_call [OF run bad] bad show ?thesis by simp
qed

subsection \<open>Pooling\<close>

text \<open>
  Claim C9. The pooling value is derived from the configured strategy alone: \<^verbatim>\<open>mean\<close>,
  \<^verbatim>\<open>cls\<close> or \<^verbatim>\<open>none\<close> select the matching pooling type (and \<^verbatim>\<open>mean\<close> is the
  fallback). Every call of \<^verbatim>\<open>create_embedding\<close> made by \<^verbatim>\<open>embed\<close> carries the caller's
  normalize flag and, when the installed engine accepts a pooling argument, exactly that
  pooling value (no pooling argument otherwise), whatever the inputs, the flag and the
  batch size of the call; \<^verbatim>\<open>embed\<close> has no pooling parameter.
\<close>

theorem pooling_fixed_by_configuration:
  assumes "embed env cfg st inps nrm bs = (r, st')"
  shows "(\<forall>call\<in>set (compute_calls (new_events st st')).
            kw_pooling_type (fst (snd call))
              = (if CREATE_EMBEDDING_ACCEPTS_POOLING env then Some (pooling_of cfg) else None)
            \<and> kw_normalize (fst (snd call)) = nrm)
    \<and> pooling_of cfg = (if embedding_pooling cfg = ''cls'' then CLS
                         else if embedding_pooling cfg = ''none'' then NONE else MEAN)"
proof -
  have "pooling_of cfg = (if embedding_pooling cfg = ''cls'' then CLS
                         else if embedding_pooling cfg = ''none'' then NONE else MEAN)"
    by (simp add: pooling_of_def POOLING_OPTIONS_def)
  moreover have "\<forall>call\<in>set (compute_calls (new_events st st')).
            kw_pooling_type (fst (snd call))
              = (if CREATE_EMBEDDING_ACCEPTS_POOLING env then Some (pooling_of cfg) else None)
            \<and> kw_normalize (fst (snd call)) = nrm"
    using assms by (cases rule: embed_cases) (auto simp: make_kwargs_def)
  ultimately show ?thesis by blast
qed

theorem pooling_fixed_by_configuration_witness:
  "map (\<lambda>call. fst (snd call)) (compute_calls (new_events stub_start
      (snd (embed (stub_env 0 True good_engine) (default_settings\<lparr>embedding_pooling := ''cls''\<rparr>)
             stub_start (Seq [''a'', ''b'']) False (Some 1)))))
     = [\<lparr>kw_normalize = False, kw_pooling_type = Some CLS\<rparr>,
        \<lparr>kw_normalize = False, kw_pooling_type = Some CLS\<rparr>]
   \<and> pooling_of (default_settings\<lparr>embedding_pooling := ''cls''\<rparr>) = CLS"
proof -
  let ?C = "default_settings\<lparr>embedding_pooling := ''cls''\<rparr>"
  let ?R = "embed (stub_env 0 True good_engine) ?C stub_start (Seq [''a'', ''b'']) False (Some 1)"
  have run: "?R = (fst ?R, snd ?R)" by simp
  have calls: "map fst (compute_calls (new_events stub_start (snd ?R))) = [[''a''], [''b'']]"
    by code_simp
  then have len: "length (compute_calls (new_events stub_start (snd ?R))) = 2"
    by (metis length_map length_Cons list.size(3) numeral_2_eq_2)
  then obtain c1 c2 where two: "compute_calls (new_events stub_start (snd ?R)) = [c1, c2]"
    by (auto simp: length_Suc_conv numeral_2_eq_2)
  have cls: "embedding_pooling ?C = ''cls''" by (simp add: default_settings_def)
  have acc: "CREATE_EMBEDDING_ACCEPTS_POOLING (stub_env 0 True good_engine)"
    by (simp add: stub_env_def)
  from pooling_fixed_by_configuration [OF run] two cls acc show ?thesis
    by simp
qed

subsection \<open>Chunks of a positive batch size\<close>

lemma resolve_batch_positive:
  assumes "0 < max_batch_size cfg" "\<forall>n. bs = Some n \<longrightarrow> 0 \<le> n"
  shows "0 < resolve_batch cfg bs"
  using assms by (cases bs) (auto simp: resolve_batch_def py_or_def)

lemma chunks_of_calls:
  assumes "0 < B" "indices = map (\<lambda>k. int k * B) [0..<m]" "length outs \<le> m"
  shows "map fst (map (\<lambda>p. (py_slice payload (fst p) (fst p + B), kw, snd p)) (zip indices outs))
         = map (\<lambda>k. take (nat B) (drop (k * nat B) payload)) [0..<length outs]"
proof -
  have "map fst (map (\<lambda>p. (py_slice payload (fst p) (fst p + B), kw, snd p)) (zip indices outs))
        = map (\<lambda>i. py_slice payload i (i + B)) (map fst (zip indices outs))"
    by (simp add: comp_def)
  also have "map fst (zip indices outs) = take (length outs) indices"
    using assms(2,3) by (simp add: map_fst_zip_take min_def)
  also have "take (length outs) indices = map (\<lambda>k. int k * B) [0..<length outs]"
    using assms(2,3) by (simp add: take_map min_def)
  also have "map (\<lambda>i. py_slice payload i (i + B)) (map (\<lambda>k. int k * B) [0..<length outs])
        = map (\<lambda>k. take (nat B) (drop (k * nat B) payload)) [0..<length outs]"
    using assms(1) by (simp add: py_slice_chunk nat_mult_distrib)
  finally show ?thesis .
qed

lemma outs_of_calls:
  assumes "length outs \<le> length indices"
  shows "map (\<lambda>call. snd (snd call))
           (map (\<lambda>p. (py_slice payload (fst p) (fst p + B), kw, snd p)) (zip indices outs))
         = outs"
proof -
  have "map (\<lambda>call. snd (snd call))
           (map (\<lambda>p. (py_slice payload (fst p) (fst p + B), kw, snd p)) (zip indices outs))
        = map snd (zip indices outs)"
    by (simp add: comp_def)
  also have "\<dots> = outs" using assms by (simp add: map_snd_zip_take min_def)
  finally show ?thesis .
qed

text \<open>What the loop case of embed gives when the resolved batch size is positive.\<close>

lemma embed_positive_loop:
  assumes run: "embed env cfg st inps nrm bs = (r, st')"
    and pos: "0 < resolve_batch cfg bs"
    and ne: "compute_calls (new_events st st') \<noteq> [] \<or> (ensure_iterable inps \<noteq> []
              \<and> (\<exists>h. fst (load_llama env cfg st) = Inr h))"
  obtains outs where
    "map fst (compute_calls (new_events st st'))
       = map (\<lambda>k. take (nat (resolve_batch cfg bs))
                     (drop (k * nat (resolve_batch cfg bs)) (ensure_iterable inps)))
           [0..<length outs]"
    "map (\<lambda>call. snd (snd call)) (compute_calls (new_events st st')) = outs"
    "length outs \<le> (length (ensure_iterable inps) + nat (resolve_batch cfg bs) - 1)
                      div nat (resolve_batch cfg bs)"
    "\<forall>out\<in>set (butlast outs). entries out \<noteq> None"
    "outs \<noteq> []"
    "r = (if length outs = (length (ensure_iterable inps) + nat (resolve_batch cfg bs) - 1)
                      div nat (resolve_batch cfg bs)
             \<and> list_all (\<lambda>out. entries out \<noteq> None) outs
          then Inr (concat (map (\<lambda>out. chunk_embeddings (the (entries out))) outs))
          else Inl (loop_error outs))"
    "length outs < (length (ensure_iterable inps) + nat (resolve_batch cfg bs) - 1)
                      div nat (resolve_batch cfg bs) \<longrightarrow> entries (last outs) = None"
using run proof (cases rule: embed_cases)
  case (load_failed e st1)
  with ne show ?thesis by simp
next
  case (empty h st1)
  with ne show ?thesis by simp
next
  case (bad_range h st1 e)
  with pos show ?thesis by (simp add: py_range_pos)
next
  case (loop h st1 indices outs)
  let ?B = "resolve_batch cfg bs"
  let ?m = "(length (ensure_iterable inps) + nat ?B - 1) div nat ?B"
  from loop(3) pos have ind: "indices = map (\<lambda>k. int k * ?B) [0..<?m]"
    by (simp add: py_range_pos)
  then have li: "length indices = ?m" by simp
  have len: "length outs \<le> ?m"
    unfolding loop(4) using loop_outs_length [of env h _ _ _ indices] li by simp
  from loop(2) pos have "0 < ?m"
    using chunk_count_covers [of "nat ?B" "length (ensure_iterable inps)"]
    by (cases "?m") auto
  with li have "indices \<noteq> []" by auto
  then have one: "outs \<noteq> []" unfolding loop(4) by simp
  have a: "map fst (compute_calls (new_events st st'))
       = map (\<lambda>k. take (nat ?B) (drop (k * nat ?B) (ensure_iterable inps))) [0..<length outs]"
    unfolding loop(5) using pos ind len by (rule chunks_of_calls)
  have b: "map (\<lambda>call. snd (snd call)) (compute_calls (new_events st st')) = outs"
    unfolding loop(5) using len li by (intro outs_of_calls) simp
  have c: "\<forall>out\<in>set (butlast outs). entries out \<noteq> None"
    unfolding loop(4) by (intro ballI) (rule loop_outs_butlast)
  have d: "length outs < ?m \<longrightarrow> entries (last outs) = None"
    unfolding loop(4) using loop_outs_short [of env h _ _ _ indices] li by simp
  show ?thesis
    using that [OF a b len c one _ d] loop(6) li by simp
qed

subsection \<open>The batch ceiling\<close>

lemma embed_no_call_success:
  assumes "embed env cfg st inps nrm bs = (Inr vs, st')" "0 < resolve_batch cfg bs"
    "compute_calls (new_events st st') = []"
  shows "ensure_iterable inps = []"
proof (rule ccontr)
  assume ne: "ensure_iterable inps \<noteq> []"
  from assms(1) have "\<exists>h. fst (load_llama env cfg st) = Inr h"
    by (cases rule: embed_cases) auto
  with ne have "compute_calls (new_events st st') \<noteq> [] \<or> (ensure_iterable inps \<noteq> []
              \<and> (\<exists>h. fst (load_llama env cfg st) = Inr h))" by blast
  with assms(1,2) obtain outs where
    "map (\<lambda>call. snd (snd call)) (compute_calls (new_events st st')) = outs" "outs \<noteq> []"
    by (rule embed_positive_loop)
  with assms(3) show False by simp
qed

lemma embed_chunks:
  assumes run: "embed env cfg st inps nrm bs = (r, st')"
    and pos: "0 < resolve_batch cfg bs"
  shows "(\<forall>call\<in>set (compute_calls (new_events st st')).
          fst call \<noteq> [] \<and> int (length (fst call)) \<le> resolve_batch cfg bs)
    \<and> (\<forall>k<length (compute_calls (new_events st st')).
          fst (compute_calls (new_events st st') ! k)
            = take (nat (resolve_batch cfg bs))
                (drop (k * nat (resolve_batch cfg bs)) (ensure_iterable inps)))
    \<and> prefix (concat (map fst (compute_calls (new_events st st')))) (ensure_iterable inps)
    \<and> ((\<exists>vs. r = Inr vs) \<longrightarrow>
          concat (map fst (compute_calls (new_events st st'))) = ensure_iterable inps)"
proof -
  let ?B = "resolve_batch cfg bs"
  let ?b = "nat ?B"
  let ?payload = "ensure_iterable inps"
  let ?calls = "compute_calls (new_events st st')"
  let ?m = "(length ?payload + ?b - 1) div ?b"
  let ?chunk = "\<lambda>k. take ?b (drop (k * ?b) ?payload)"
  from pos have bpos: "0 < ?b" by simp
  show ?thesis
  proof (cases "?calls = []")
    case True
    then show ?thesis using embed_no_call_success [OF _ pos True] run by auto
  next
    case False
    then have "?calls \<noteq> [] \<or> (?payload \<noteq> [] \<and> (\<exists>h. fst (load_llama env cfg st) = Inr h))"
      by blast
    with run pos obtain outs where
      chunks: "map fst ?calls = map ?chunk [0..<length outs]"
      and outs: "map (\<lambda>call. snd (snd call)) ?calls = outs"
      and len: "length outs \<le> ?m"
      and res: "r = (if length outs = ?m \<and> list_all (\<lambda>out. entries out \<noteq> None) outs
          then Inr (concat (map (\<lambda>out. chunk_embeddings (the (entries out))) outs))
          else Inl (loop_error outs))"
      by (rule embed_positive_loop)
    from outs have lc: "length ?calls = length outs" by (metis length_map)
    have nth: "fst (?calls ! k) = ?chunk k" if "k < length ?calls" for k
    proof -
      from that have "fst (?calls ! k) = map fst ?calls ! k" by simp
      also have "\<dots> = ?chunk k" using that lc by (simp add: chunks)
      finally show ?thesis .
    qed
    have each: "fst call \<noteq> [] \<and> int (length (fst call)) \<le> ?B" if "call \<in> set ?calls" for call
    proof -
      from that obtain k where k: "k < length ?calls" "call = ?calls ! k"
        by (auto simp: in_set_conv_nth)
      with nth have c: "fst call = ?chunk k" by simp
      from k lc len have "k < ?m" by simp
      with bpos have "k * ?b < length ?payload" by (rule chunk_start_in_range)
      with c bpos pos show ?thesis by auto
    qed
    have cat: "concat (map fst ?calls) = take (length outs * ?b) ?payload"
      unfolding chunks by (rule concat_take_drop)
    have pre: "prefix (concat (map fst ?calls)) ?payload"
      unfolding cat by (rule take_is_prefix)
    have full: "concat (map fst ?calls) = ?payload" if "\<exists>vs. r = Inr vs"
    proof -
      from that res have "length outs = ?m" by (auto split: if_splits)
      with chunk_count_covers [OF bpos, of "length ?payload"] cat show ?thesis by simp
    qed
    from nth each pre full show ?thesis by blast
  qed
qed

text \<open>
  Claim C3. For a positive configured maximum and a requested batch size that is absent
  or positive, the effective sub-batch size is the minimum of the requested size (the
  configured maximum when absent) and the configured maximum. Every chunk passed to
  \<^verbatim>\<open>create_embedding\<close> is non-empty and has at most that many elements; the \<open>k\<close>-th chunk
  is the slice of the inputs that starts at \<open>k\<close> times the sub-batch size; the chunks
  passed, in order, concatenate to a prefix of the inputs, and to the inputs themselves
  when the call succeeds.
\<close>

theorem batch_ceiling:
  assumes "embed env cfg st inps nrm bs = (r, st')"
    and "0 < max_batch_size cfg"
    and "\<forall>n. bs = Some n \<longrightarrow> 0 < n"
  shows "resolve_batch cfg bs
           = min (case bs of None \<Rightarrow> max_batch_size cfg | Some n \<Rightarrow> n) (max_batch_size cfg)
    \<and> (\<forall>call\<in>set (compute_calls (new_events st st')).
          fst call \<noteq> [] \<and> int (length (fst call)) \<le> resolve_batch cfg bs)
    \<and> (\<forall>k<length (compute_calls (new_events st st')).
          fst (compute_calls (new_events st st') ! k)
            = take (nat (resolve_batch cfg bs))
                (drop (k * nat (resolve_batch cfg bs)) (ensure_iterable inps)))
    \<and> prefix (concat (map fst (compute_calls (new_events st st')))) (ensure_iterable inps)
    \<and> ((\<exists>vs. r = Inr vs) \<longrightarrow>
          concat (map fst (compute_calls (new_events st st'))) = ensure_iterable inps)"
proof -
  have pos: "0 < resolve_batch cfg bs" using assms(2,3) by (intro resolve_batch_positive) auto
  have formula: "resolve_batch cfg bs
      = min (case bs of None \<Rightarrow> max_batch_size cfg | Some n \<Rightarrow> n) (max_batch_size cfg)"
    using assms(3) by (cases bs) (auto simp: resolve_batch_def py_or_def)
  from formula embed_chunks [OF assms(1) pos] show ?thesis by blast
qed

theorem batch_ceiling_witness:
  "0 < max_batch_size (default_settings\<lparr>max_batch_size := 2\<rparr>)
   \<and> resolve_batch (default_settings\<lparr>max_batch_size := 2\<rparr>) (Some 1000) = 2
   \<and> map fst (compute_calls (new_events stub_start
        (snd (embed (stub_env 0 True good_engine) (default_settings\<lparr>max_batch_size := 2\<rparr>)
               stub_start (Seq [''a'', ''b'', ''c'', ''d'', ''e'']) True (Some 1000)))))
     = [[''a'', ''b''], [''c'', ''d''], [''e'']]
   \<and> concat (map fst (compute_calls (new_events stub_start
        (snd (embed (stub_env 0 True good_engine) (default_settings\<lparr>max_batch_size := 2\<rparr>)
               stub_start (Seq [''a'', ''b'', ''c'', ''d'', ''e'']) True (Some 1000))))))
     = [''a'', ''b'', ''c'', ''d'', ''e'']"
proof -
  let ?C = "default_settings\<lparr>max_batch_size := 2\<rparr>"
  let ?R = "embed (stub_env 0 True good_engine) ?C stub_start
              (Seq [''a'', ''b'', ''c'', ''d'', ''e'']) True (Some 1000)"
  have run: "?R = (fst ?R, snd ?R)" by simp
  have h1: "0 < max_batch_size ?C" by (simp add: default_settings_def)
  have h2: "\<forall>n. Some (1000::int) = Some n \<longrightarrow> 0 < n" by simp
  have "fst ?R = Inr [[1], [1], [1], [1], [1]]" by code_simp
  then have ok: "\<exists>vs. fst ?R = Inr vs" by blast
  have r2: "resolve_batch ?C (Some 1000) = 2" by (simp add: resolve_batch_def py_or_def)
  have shape: "map fst (compute_calls (new_events stub_start (snd ?R)))
     = [[''a'', ''b''], [''c'', ''d''], [''e'']]" by code_simp
  from batch_ceiling [OF run h1 h2] ok h1 r2 shape show ?thesis by simp
qed

subsection \<open>Concatenating chunk results\<close>

lemma zip_concat_map:
  "(\<forall>c\<in>set cs. length (f c) = length (g c)) \<Longrightarrow>
   zip (concat (map f cs)) (concat (map g cs)) = concat (map (\<lambda>c. zip (f c) (g c)) cs)"
  by (induction cs) (simp_all add: zip_append)

lemma length_concat_map_eq:
  "(\<forall>c\<in>set cs. length (f c) = length (g c)) \<Longrightarrow>
   length (concat (map f cs)) = length (concat (map g cs))"
  by (induction cs) simp_all

lemma length_concat_map_le:
  "(\<forall>c\<in>set cs. length (g c) \<le> length (f c)) \<Longrightarrow>
   length (concat (map g cs)) \<le> length (concat (map f cs))"
  by (induction cs) (simp_all add: add_mono)

lemma length_concat_map_less:
  "(\<forall>c\<in>set cs. length (g c) \<le> length (f c)) \<Longrightarrow>
   (\<exists>c\<in>set cs. length (g c) < length (f c)) \<Longrightarrow>
   length (concat (map g cs)) < length (concat (map f cs))"
proof (induction cs)
  case Nil
  then show ?case by simp
next
  case (Cons c cs)
  from Cons.prems(1) have le: "length (concat (map g cs)) \<le> length (concat (map f cs))"
    by (intro length_concat_map_le) simp
  show ?case
  proof (cases "length (g c) < length (f c)")
    case True
    with le show ?thesis by simp
  next
    case False
    with Cons.prems have "\<exists>c\<in>set cs. length (g c) < length (f c)" by auto
    with Cons.IH Cons.prems(1)
    have "length (concat (map g cs)) < length (concat (map f cs))" by simp
    moreover from Cons.prems(1) have "length (g c) \<le> length (f c)" by simp
    ultimately show ?thesis by simp
  qed
qed

lemma chunk_embeddings_filter:
  "chunk_embeddings items = map vector_of (filter has_vector items)"
  unfolding chunk_embeddings_def vector_of_def [abs_def] has_vector_def [abs_def] by (rule refl)

lemma chunk_embeddings_all:
  "list_all has_vector items \<Longrightarrow> chunk_embeddings items = map vector_of items"
  by (simp add: chunk_embeddings_filter list_all_iff)

text \<open>On success, the result is read off the calls of the trace.\<close>

lemma embed_success_vectors:
  assumes run: "embed env cfg st inps nrm bs = (Inr vs, st')"
  shows "(\<forall>call\<in>set (compute_calls (new_events st st')). entries (snd (snd call)) \<noteq> None)
    \<and> vs = concat (map (\<lambda>call. chunk_embeddings (the (entries (snd (snd call)))))
                    (compute_calls (new_events st st')))"
using run proof (cases rule: embed_cases)
  case (loop h st1 indices outs)
  let ?calls = "compute_calls (new_events st st')"
  from loop(6) have len: "length outs = length indices"
    and ok: "list_all (\<lambda>out. entries out \<noteq> None) outs"
    and vs: "vs = concat (map (\<lambda>out. chunk_embeddings (the (entries out))) outs)"
    by (auto split: if_splits)
  have outs: "map (\<lambda>call. snd (snd call)) ?calls = outs"
    unfolding loop(5) using len by (intro outs_of_calls) simp
  have a: "\<forall>call\<in>set ?calls. entries (snd (snd call)) \<noteq> None"
  proof
    fix call assume "call \<in> set ?calls"
    then have "snd (snd call) \<in> set (map (\<lambda>call. snd (snd call)) ?calls)" by simp
    with outs ok show "entries (snd (snd call)) \<noteq> None" by (simp add: list_all_iff)
  qed
  have "map (\<lambda>out. chunk_embeddings (the (entries out))) outs
        = map (\<lambda>call. chunk_embeddings (the (entries (snd (snd call))))) ?calls"
    unfolding outs [symmetric] by (simp add: comp_def)
  with vs a show ?thesis by simp
qed auto

subsection \<open>Order preservation\<close>

text \<open>
  Claim C1. Let the inputs be non-empty, the handle be acquired, the configured maximum
  be positive and the requested batch size be absent or not negative. If every call of
  \<^verbatim>\<open>create_embedding\<close> made during the call returned exactly one entry with a vector per
  input string of its chunk, then \<^verbatim>\<open>embed\<close> succeeds, its result has as many vectors as
  there are inputs, and pairing each input with the vector at its index gives exactly
  the pairs (input, vector the engine produced for it) of the calls, in call order.
\<close>

theorem embed_order_preserved:
  assumes run: "embed env cfg st inps nrm bs = (r, st')"
    and load: "fst (load_llama env cfg st) = Inr h"
    and maxpos: "0 < max_batch_size cfg"
    and req: "\<forall>n. bs = Some n \<longrightarrow> 0 \<le> n"
    and ne: "ensure_iterable inps \<noteq> []"
    and good: "\<forall>call\<in>set (compute_calls (new_events st st')). one_vector_per_input call"
  shows "\<exists>vs. r = Inr vs
    \<and> length vs = length (ensure_iterable inps)
    \<and> zip (ensure_iterable inps) vs
        = concat (map produced (compute_calls (new_events st st')))"
proof -
  let ?calls = "compute_calls (new_events st st')"
  let ?payload = "ensure_iterable inps"
  let ?b = "nat (resolve_batch cfg bs)"
  let ?m = "(length ?payload + ?b - 1) div ?b"
  let ?g = "\<lambda>call. chunk_embeddings (the (entries (snd (snd call))))"
  have pos: "0 < resolve_batch cfg bs" using maxpos req by (intro resolve_batch_positive) auto
  from ne load have "?calls \<noteq> [] \<or> (?payload \<noteq> [] \<and> (\<exists>h. fst (load_llama env cfg st) = Inr h))"
    by blast
  with run pos obtain outs where
    outs: "map (\<lambda>call. snd (snd call)) ?calls = outs"
    and one: "outs \<noteq> []"
    and len: "length outs \<le> ?m"
    and res: "r = (if length outs = ?m \<and> list_all (\<lambda>out. entries out \<noteq> None) outs
          then Inr (concat (map (\<lambda>out. chunk_embeddings (the (entries out))) outs))
          else Inl (loop_error outs))"
    and short: "length outs < ?m \<longrightarrow> entries (last outs) = None"
    by (rule embed_positive_loop)
  have usable: "entries out \<noteq> None" if "out \<in> set outs" for out
  proof -
    from that outs obtain call where "call \<in> set ?calls" "out = snd (snd call)" by auto
    with good show ?thesis by (auto simp: one_vector_per_input_def split: option.splits)
  qed
  from one have "last outs \<in> set outs" by simp
  with usable short len have full: "length outs = ?m" by fastforce
  from usable have "list_all (\<lambda>out. entries out \<noteq> None) outs" by (simp add: list_all_iff)
  with res full obtain vs where r: "r = Inr vs" by simp
  with run have run': "embed env cfg st inps nrm bs = (Inr vs, st')" by simp
  from embed_success_vectors [OF run'] have vs: "vs = concat (map ?g ?calls)" by blast
  from embed_chunks [OF run pos] r have payload: "?payload = concat (map fst ?calls)" by simp
  have each: "length (fst call) = length (?g call) \<and> zip (fst call) (?g call) = produced call"
    if "call \<in> set ?calls" for call
  proof -
    from that good have "one_vector_per_input call" by blast
    then obtain items where "entries (snd (snd call)) = Some items"
      "length items = length (fst call)" "list_all has_vector items"
      by (auto simp: one_vector_per_input_def split: option.splits)
    then show ?thesis by (simp add: chunk_embeddings_all produced_def)
  qed
  then have eq: "\<forall>call\<in>set ?calls. length (fst call) = length (?g call)" by blast
  have "length vs = length ?payload"
    unfolding vs payload using eq by (intro length_concat_map_eq [symmetric])
  moreover have "zip ?payload vs = concat (map (\<lambda>call. zip (fst call) (?g call)) ?calls)"
    unfolding payload [symmetric] vs [symmetric] using eq
    by (subst payload, subst vs) (rule zip_concat_map)
  moreover have "map (\<lambda>call. zip (fst call) (?g call)) ?calls = map produced ?calls"
    using each by (intro map_cong refl) simp
  ultimately show ?thesis using r by simp
qed

theorem embed_order_preserved_witness:
  "fst (embed (stub_env 0 True good_engine) (default_settings\<lparr>max_batch_size := 2\<rparr>)
         stub_start (Seq [''a'', ''bb'', ''ccc'', ''dddd'', ''eeeee'']) True None)
     = Inr [[1], [2], [3], [4], [5]]
   \<and> concat (map produced (compute_calls (new_events stub_start
        (snd (embed (stub_env 0 True good_engine) (default_settings\<lparr>max_batch_size := 2\<rparr>)
               stub_start (Seq [''a'', ''bb'', ''ccc'', ''dddd'', ''eeeee'']) True None)))))
     = [(''a'', [1]), (''bb'', [2]), (''ccc'', [3]), (''dddd'', [4]), (''eeeee'', [5])]"
proof -
  let ?E = "stub_env 0 True good_engine"
  let ?C = "default_settings\<lparr>max_batch_size := 2\<rparr>"
  let ?I = "Seq [''a'', ''bb'', ''ccc'', ''dddd'', ''eeeee'']"
  let ?R = "embed ?E ?C stub_start ?I True None"
  have run: "?R = (fst ?R, snd ?R)" by simp
  have load: "fst (load_llama ?E ?C stub_start) = Inr 1" by code_simp
  have h1: "0 < max_batch_size ?C" by (simp add: default_settings_def)
  have h2: "\<forall>n. (None :: int option) = Some n \<longrightarrow> 0 \<le> n" by simp
  have ne: "ensure_iterable ?I \<noteq> []" by simp
  have good: "\<forall>call\<in>set (compute_calls (new_events stub_start (snd ?R))).
                one_vector_per_input call" by code_simp
  have val: "fst ?R = Inr [[1], [2], [3], [4], [5]]" by code_simp
  from embed_order_preserved [OF run load h1 h2 ne good] val show ?thesis by auto
qed

subsection \<open>Entries without a vector\<close>

text \<open>
  Claim C7. When \<^verbatim>\<open>embed\<close> succeeds, every call returned a list of entries, and the result
  is the concatenation, in call order, of the vectors of exactly those entries that carry
  a vector, in response order: an entry without a vector is dropped, neither padded nor
  reported. Consequently, for a positive configured maximum and a requested batch size
  that is absent or not negative, if no response has more entries than its chunk has
  strings and some entry lacks a vector, the result is shorter than the inputs.
\<close>

theorem entries_without_vector_are_dropped:
  assumes run: "embed env cfg st inps nrm bs = (Inr vs, st')"
  shows "(\<forall>call\<in>set (compute_calls (new_events st st')). entries (snd (snd call)) \<noteq> None)
    \<and> vs = concat (map (\<lambda>call. map vector_of
                            (filter has_vector (the (entries (snd (snd call))))))
                    (compute_calls (new_events st st')))
    \<and> (0 < max_batch_size cfg \<and> (\<forall>n. bs = Some n \<longrightarrow> 0 \<le> n)
       \<and> (\<forall>call\<in>set (compute_calls (new_events st st')).
             length (the (entries (snd (snd call)))) \<le> length (fst call))
       \<and> (\<exists>call\<in>set (compute_calls (new_events st st')).
             \<exists>item\<in>set (the (entries (snd (snd call)))). \<not> has_vector item)
       \<longrightarrow> length vs < length (ensure_iterable inps))"
proof -
  let ?calls = "compute_calls (new_events st st')"
  let ?items = "\<lambda>call. the (entries (snd (snd call)))"
  let ?g = "\<lambda>call. map vector_of (filter has_vector (?items call))"
  from embed_success_vectors [OF run]
  have a: "\<forall>call\<in>set ?calls. entries (snd (snd call)) \<noteq> None"
    and vs: "vs = concat (map ?g ?calls)"
    by (simp_all add: chunk_embeddings_filter)
  have c: "length vs < length (ensure_iterable inps)"
    if maxpos: "0 < max_batch_size cfg" and req: "\<forall>n. bs = Some n \<longrightarrow> 0 \<le> n"
      and le: "\<forall>call\<in>set ?calls. length (?items call) \<le> length (fst call)"
      and ex: "\<exists>call\<in>set ?calls. \<exists>item\<in>set (?items call). \<not> has_vector item"
  proof -
    have pos: "0 < resolve_batch cfg bs" using maxpos req by (intro resolve_batch_positive) auto
    from embed_chunks [OF run pos]
    have payload: "ensure_iterable inps = concat (map fst ?calls)" by simp
    have le': "\<forall>call\<in>set ?calls. length (?g call) \<le> length (fst call)"
    proof
      fix call assume "call \<in> set ?calls"
      with le have "length (?items call) \<le> length (fst call)" by blast
      moreover have "length (?g call) \<le> length (?items call)" by simp
      ultimately show "length (?g call) \<le> length (fst call)" by (rule order_trans [rotated])
    qed
    from ex obtain call item where call: "call \<in> set ?calls"
      and item: "item \<in> set (?items call)" "\<not> has_vector item" by blast
    from item have "length (filter has_vector (?items call)) < length (?items call)"
      by (intro length_filter_less)
    with le call have "length (?g call) < length (fst call)" by fastforce
    with call have ex': "\<exists>call\<in>set ?calls. length (?g call) < length (fst call)" by blast
    show ?thesis unfolding vs payload using le' ex' by (rule length_concat_map_less)
  qed
  from a vs c show ?thesis by blast
qed

theorem entries_without_vector_are_dropped_witness:
  "fst (embed (stub_env 0 True dropping_engine) (default_settings\<lparr>max_batch_size := 2\<rparr>)
         stub_start (Seq [''a'', ''b'', ''ccc'']) True None) = Inr [[1], [3]]
   \<and> length [[1], [3 :: int]] < length (ensure_iterable (Seq [''a'', ''b'', ''ccc'']))"
proof -
  let ?E = "stub_env 0 True dropping_engine"
  let ?C = "default_settings\<lparr>max_batch_size := 2\<rparr>"
  let ?I = "Seq [''a'', ''b'', ''ccc'']"
  let ?R = "embed ?E ?C stub_start ?I True None"
  have val: "fst ?R = Inr [[1], [3]]" by code_simp
  then have run: "?R = (Inr [[1], [3]], snd ?R)" by (metis prod.collapse)
  have h1: "0 < max_batch_size ?C" by (simp add: default_settings_def)
  have h2: "\<forall>n. (None :: int option) = Some n \<longrightarrow> 0 \<le> n" by simp
  have h3: "\<forall>call\<in>set (compute_calls (new_events stub_start (snd ?R))).
             length (the (entries (snd (snd call)))) \<le> length (fst call)" by code_simp
  have h4: "\<exists>call\<in>set (compute_calls (new_events stub_start (snd ?R))).
             \<exists>item\<in>set (the (entries (snd (snd call)))). \<not> has_vector item" by code_simp
  from entries_without_vector_are_dropped [OF run] h1 h2 h3 h4 val show ?thesis by blast
qed

subsection \<open>Batch sizes outside the contract\<close>

text \<open>
  \<^verbatim>\<open>embed\<close> does not check its batch size. A resolved size of zero makes \<^verbatim>\<open>range\<close>
  raise; a negative one makes the range empty, so that the call returns an empty result
  without calling the engine, whatever the inputs.
\<close>

lemma py_range_negative_step:
  assumes "b < 0"
  shows "py_range 0 (int n) b = Inr []"
proof -
  have "- int n - b - 1 \<le> - b - 1" by simp
  then have "(- int n - b - 1) div (- b) \<le> (- b - 1) div (- b)"
    using assms by (intro zdiv_mono1) simp_all
  also have "(- b - 1) div (- b) = 0" using assms by (intro div_pos_pos_trivial) simp_all
  finally have "nat ((0 - int n - b - 1) div (- b)) = 0" by simp
  with assms show ?thesis by (simp add: py_range_def)
qed

lemma embed_zero_batch:
  assumes "load_llama env cfg st = (Inr h, st1)" "ensure_iterable inps \<noteq> []"
    "resolve_batch cfg bs = 0"
  shows "embed env cfg st inps nrm bs
           = (Inl (ValueError ''range() arg 3 must not be zero''), st1)"
  using assms by (simp add: embed_def py_range_def Let_def)

lemma embed_negative_batch:
  assumes "load_llama env cfg st = (Inr h, st1)" "resolve_batch cfg bs < 0"
  shows "embed env cfg st inps nrm bs = (Inr [], st1)"
  using assms by (simp add: embed_def py_range_negative_step Let_def)

subsection \<open>Failed acquisition\<close>

lemma load_llama_slow:
  "EmbeddingModel_instance st = None \<Longrightarrow>
   load_llama env cfg st =
     (fst (load_locked env cfg (emit Ev_lock_acquire st)),
      emit Ev_lock_release (snd (load_locked env cfg (emit Ev_lock_acquire st))))"
  by (simp add: load_llama_def split: prod.split)

lemma load_llama_retry_trace:
  assumes "EmbeddingModel_instance st = None"
  shows "take 2 (new_events st (snd (load_llama env cfg st)))
         = [Ev_lock_acquire,
            Ev_mkdir (model_cache_dir cfg) (fst (mkdir env (model_cache_dir cfg) (world st)))]"
  using assms
  by (auto simp: load_llama_def load_locked_def download_model_def emit_def Let_def
      new_events_def split: prod.split sum.split)

lemma load_llama_succeeds:
  assumes "EmbeddingModel_instance st = None"
    and "mkdir env (model_cache_dir cfg) (world st) = (Inr u, w1)"
    and "hf_hub_download env (model_repo_id cfg) (model_file cfg) (model_cache_dir cfg) w1
           = (Inr path, w2)"
    and "Llama env (construct_args cfg path) w2 = (Inr h, w3)"
  shows "fst (load_llama env cfg st) = Inr h"
    and "EmbeddingModel_instance (snd (load_llama env cfg st)) = Some h"
    and "constructions (new_events st (snd (load_llama env cfg st)))
           = [(construct_args cfg path, Inr h)]"
  using assms
  by (auto simp: load_llama_def load_locked_def download_model_def emit_def Let_def
      new_events_def constructions_def split: prod.split sum.split)

lemma embed_load_failure:
  "load_llama env cfg st = (Inl e, st') \<Longrightarrow> embed env cfg st inps nrm bs = (Inl e, st')"
  by (simp add: embed_def)

text \<open>
  Claim C5. If the download or the construction raises during \<^verbatim>\<open>_load_llama\<close>, the
  exception reaches the caller (and fails the \<^verbatim>\<open>embed\<close> call that asked for the handle),
  and \<^verbatim>\<open>EmbeddingModel._instance\<close> is still unset afterwards. The next call of
  \<^verbatim>\<open>_load_llama\<close> therefore takes the lock and attempts the download again, and if the
  directory creation, the download and the constructor succeed this time, it returns the
  new handle, which is the only construction of that call, and caches it.
\<close>

theorem failed_load_is_retried:
  assumes "load_llama env cfg st = (Inl e, st')"
  shows "EmbeddingModel_instance st' = None
    \<and> embed env cfg st inps nrm bs = (Inl e, st')
    \<and> take 2 (new_events st' (snd (load_llama env cfg st')))
        = [Ev_lock_acquire,
           Ev_mkdir (model_cache_dir cfg) (fst (mkdir env (model_cache_dir cfg) (world st')))]
    \<and> (mkdir env (model_cache_dir cfg) (world st') = (Inr u, w1)
       \<and> hf_hub_download env (model_repo_id cfg) (model_file cfg) (model_cache_dir cfg) w1
           = (Inr path, w2)
       \<and> Llama env (construct_args cfg path) w2 = (Inr h, w3)
       \<longrightarrow> fst (load_llama env cfg st') = Inr h
         \<and> EmbeddingModel_instance (snd (load_llama env cfg st')) = Some h
         \<and> constructions (new_events st' (snd (load_llama env cfg st')))
             = [(construct_args cfg path, Inr h)])"
proof -
  from load_llama_instance [OF assms] have none: "EmbeddingModel_instance st' = None" by simp
  from assms have emb: "embed env cfg st inps nrm bs = (Inl e, st')"
    by (rule embed_load_failure)
  have again: "take 2 (new_events st' (snd (load_llama env cfg st')))
        = [Ev_lock_acquire,
           Ev_mkdir (model_cache_dir cfg) (fst (mkdir env (model_cache_dir cfg) (world st')))]"
    using none by (rule load_llama_retry_trace)
  have retry: "fst (load_llama env cfg st') = Inr h
         \<and> EmbeddingModel_instance (snd (load_llama env cfg st')) = Some h
         \<and> constructions (new_events st' (snd (load_llama env cfg st')))
             = [(construct_args cfg path, Inr h)]"
    if a: "mkdir env (model_cache_dir cfg) (world st') = (Inr u, w1)"
      and b: "hf_hub_download env (model_repo_id cfg) (model_file cfg) (model_cache_dir cfg) w1
           = (Inr path, w2)"
      and c: "Llama env (construct_args cfg path) w2 = (Inr h, w3)"
    using load_llama_succeeds [OF none a b c] by simp
  from none emb again retry show ?thesis by simp
qed

theorem failed_load_is_retried_witness:
  "fst (load_llama (stub_env 1 True good_engine) default_settings stub_start)
     = Inl (Raised ''offline'')
   \<and> EmbeddingModel_instance
       (snd (load_llama (stub_env 1 True good_engine) default_settings stub_start)) = None
   \<and> fst (load_llama (stub_env 1 True good_engine) default_settings
            (snd (load_llama (stub_env 1 True good_engine) default_settings stub_start)))
     = Inr 2"
proof -
  let ?E = "stub_env 1 True good_engine"
  let ?C = "default_settings"
  let ?L = "load_llama ?E ?C stub_start"
  have f: "fst ?L = Inl (Raised ''offline'')" by code_simp
  then have run: "?L = (Inl (Raised ''offline''), snd ?L)" by (metis prod.collapse)
  have w: "world (snd ?L) = (1, 0)" by code_simp
  have a: "mkdir ?E (model_cache_dir ?C) (world (snd ?L)) = (Inr (), (1, 0))"
    unfolding w by (simp add: stub_env_def)
  have b: "hf_hub_download ?E (model_repo_id ?C) (model_file ?C) (model_cache_dir ?C) (1, 0)
           = (Inr (model_cache_dir ?C @ ''/'' @ model_file ?C), (2, 0))"
    by (simp add: stub_env_def)
  have c: "Llama ?E (construct_args ?C (model_cache_dir ?C @ ''/'' @ model_file ?C)) (2, 0)
           = (Inr 2, (2, 0))"
    by (simp add: stub_env_def)
  from failed_load_is_retried [OF run, of _ _ _ "()" "(1, 0)"
      "model_cache_dir ?C @ ''/'' @ model_file ?C" "(2, 0)" 2 "(2, 0)"] a b c f
  show ?thesis by simp
qed

subsection \<open>Warm-up\<close>

text \<open>
  Claim C8. The start-up phase calls \<^verbatim>\<open>embed\<close> once, with the single synthetic input
  \<^verbatim>\<open>warmup\<close> and the default options, before it yields to the server. Whatever that call
  does, the start-up phase completes: a success is logged at level info, an exception is
  caught and logged as a warning, and nothing else is done.
\<close>

theorem warmup_failure_does_not_block_startup:
  "fst (lifespan env cfg st) = Inr ()
   \<and> snd (lifespan env cfg st)
     = emit (case fst (embed env cfg st (Seq [''warmup'']) True None) of
               Inr vs \<Rightarrow> Ev_log_info ''Embedding model loaded successfully.''
             | Inl exc \<Rightarrow> Ev_log_warning (''Model warmup failed: '' @ exn_str exc))
         (snd (embed env cfg st (Seq [''warmup'']) True None))"
  by (simp add: lifespan_def warm_model_def split: prod.split sum.split)

theorem warmup_failure_does_not_block_startup_witness:
  "fst (embed (stub_env 1 True good_engine) default_settings stub_start
          (Seq [''warmup'']) True None) = Inl (Raised ''offline'')
   \<and> fst (lifespan (stub_env 1 True good_engine) default_settings stub_start) = Inr ()
   \<and> last (trace (snd (lifespan (stub_env 1 True good_engine) default_settings stub_start)))
     = Ev_log_warning ''Model warmup failed: offline''"
proof -
  let ?E = "stub_env 1 True good_engine"
  have f: "fst (embed ?E default_settings stub_start (Seq [''warmup'']) True None)
           = Inl (Raised ''offline'')" by code_simp
  from warmup_failure_does_not_block_startup [of ?E default_settings stub_start] f
  show ?thesis by (simp add: emit_def)
qed

subsection \<open>Steps of a thread\<close>

lemma thread_step_length:
  "thread_step env cfg i c = Some c' \<Longrightarrow> length (pcs c') = length (pcs c) \<and> i < length (pcs c)"
  by (auto simp: thread_step_def goto_def Let_def
      split: if_splits pc.splits prod.splits sum.splits)

lemma thread_step_others:
  "thread_step env cfg i c = Some c' \<Longrightarrow> j \<noteq> i \<Longrightarrow> pcs c' ! j = pcs c ! j"
  by (auto simp: thread_step_def goto_def Let_def
      split: if_splits pc.splits prod.splits sum.splits)

text \<open>How the lock and the stepping thread's control point change together.\<close>

lemma thread_step_lock:
  assumes "thread_step env cfg i c = Some c'"
  shows "(pcs c ! i = L58 \<and> \<not> lock_held c \<and> lock_held c' \<and> holds_lock (pcs c' ! i))
       \<or> (holds_lock (pcs c ! i) \<and> \<not> lock_held c' \<and> \<not> holds_lock (pcs c' ! i))
       \<or> (lock_held c' = lock_held c \<and> holds_lock (pcs c' ! i) = holds_lock (pcs c ! i))"
  using assms
  by (auto simp: thread_step_def goto_def Let_def
      split: if_splits pc.splits prod.splits sum.splits)

lemma mutex_step:
  assumes m: "mutex c" and s: "thread_step env cfg i c = Some c'"
  shows "mutex c'"
proof -
  from thread_step_length [OF s] have len: "length (pcs c') = length (pcs c)"
    and i: "i < length (pcs c)" by simp_all
  note oth = thread_step_others [OF s]
  from m have held: "lock_held c \<longleftrightarrow> (\<exists>k<length (pcs c). holds_lock (pcs c ! k))"
    and uniq: "\<And>k j. k < length (pcs c) \<Longrightarrow> j < length (pcs c) \<Longrightarrow>
                 holds_lock (pcs c ! k) \<Longrightarrow> holds_lock (pcs c ! j) \<Longrightarrow> k = j"
    by (auto simp: mutex_def)
  from thread_step_lock [OF s] show ?thesis
  proof (elim disjE conjE)
    assume a: "pcs c ! i = L58" "\<not> lock_held c" "lock_held c'" "holds_lock (pcs c' ! i)"
    from a(2) held have none: "\<And>k. k < length (pcs c) \<Longrightarrow> \<not> holds_lock (pcs c ! k)" by blast
    have only: "holds_lock (pcs c' ! k) \<Longrightarrow> k < length (pcs c) \<Longrightarrow> k = i" for k
      using oth [of k] none [of k] by (cases "k = i") auto
    show ?thesis unfolding mutex_def len using a(3,4) i only by blast
  next
    assume a: "holds_lock (pcs c ! i)" "\<not> lock_held c'" "\<not> holds_lock (pcs c' ! i)"
    have none: "\<not> holds_lock (pcs c' ! k)" if "k < length (pcs c)" for k
    proof (cases "k = i")
      case True
      with a(3) show ?thesis by simp
    next
      case False
      with uniq [OF that i] a(1) oth [of k] show ?thesis by auto
    qed
    show ?thesis unfolding mutex_def len using a(2) none by blast
  next
    assume a: "lock_held c' = lock_held c" "holds_lock (pcs c' ! i) = holds_lock (pcs c ! i)"
    have same: "holds_lock (pcs c' ! k) = holds_lock (pcs c ! k)" for k
      using oth [of k] a(2) by (cases "k = i") auto
    show ?thesis unfolding mutex_def len a(1) same using held uniq by blast
  qed
qed

lemma pc_ok_after_assign:
  "pc_ok None p \<Longrightarrow> \<not> holds_lock p \<Longrightarrow> pc_ok (Some h) p"
  by (cases p) auto

lemma thread_step_instance:
  assumes "thread_step env cfg i c = Some c'"
  shows "(EmbeddingModel_instance (shared c') = EmbeddingModel_instance (shared c)
            \<and> (pc_ok (EmbeddingModel_instance (shared c)) (pcs c ! i)
                 \<longrightarrow> pc_ok (EmbeddingModel_instance (shared c)) (pcs c' ! i)))
       \<or> (\<exists>h. pcs c ! i = L63_assign h \<and> EmbeddingModel_instance (shared c') = Some h
               \<and> pcs c' ! i = L71)"
  using assms download_model_instance [of env cfg "shared c"]
  by (auto simp: thread_step_def goto_def Let_def emit_def
      split: if_splits pc.splits prod.splits sum.splits)

lemma local_ok_step:
  assumes m: "mutex c" and l: "local_ok c" and s: "thread_step env cfg i c = Some c'"
  shows "local_ok c'"
proof -
  from thread_step_length [OF s] have len: "length (pcs c') = length (pcs c)"
    and i: "i < length (pcs c)" by simp_all
  note oth = thread_step_others [OF s]
  from l have ok: "\<And>k. k < length (pcs c) \<Longrightarrow> pc_ok (EmbeddingModel_instance (shared c)) (pcs c ! k)"
    by (simp add: local_ok_def)
  from m have uniq: "\<And>k j. k < length (pcs c) \<Longrightarrow> j < length (pcs c) \<Longrightarrow>
                 holds_lock (pcs c ! k) \<Longrightarrow> holds_lock (pcs c ! j) \<Longrightarrow> k = j"
    by (auto simp: mutex_def)
  from thread_step_instance [OF s] show ?thesis
  proof (elim disjE conjE exE)
    assume a: "EmbeddingModel_instance (shared c') = EmbeddingModel_instance (shared c)"
      and b: "pc_ok (EmbeddingModel_instance (shared c)) (pcs c ! i)
                 \<longrightarrow> pc_ok (EmbeddingModel_instance (shared c)) (pcs c' ! i)"
    have "pc_ok (EmbeddingModel_instance (shared c')) (pcs c' ! k)" if "k < length (pcs c)" for k
      using ok [OF that] oth [of k] a b by (cases "k = i") auto
    then show ?thesis by (simp add: local_ok_def len)
  next
    fix h
    assume a: "pcs c ! i = L63_assign h" "EmbeddingModel_instance (shared c') = Some h"
      "pcs c' ! i = L71"
    from ok [OF i] a(1) have none: "EmbeddingModel_instance (shared c) = None" by simp
    have "pc_ok (EmbeddingModel_instance (shared c')) (pcs c' ! k)" if "k < length (pcs c)" for k
    proof (cases "k = i")
      case True
      with a show ?thesis by simp
    next
      case False
      from uniq [OF that i] a(1) False have "\<not> holds_lock (pcs c ! k)" by auto
      with ok [OF that] none have "pc_ok (Some h) (pcs c ! k)"
        by (intro pc_ok_after_assign) simp_all
      with oth [OF False] a(2) show ?thesis by simp
    qed
    then show ?thesis by (simp add: local_ok_def len)
  qed
qed

lemma constructions_append [simp]:
  "constructions (xs @ ys) = constructions xs @ constructions ys"
  by (simp add: constructions_def)

lemma constructions_Nil [simp]: "constructions [] = []"
  by (simp add: constructions_def)

lemma constructions_single [simp]: "constructions [e] = construction_of e"
  by (simp add: constructions_def)

text \<open>What a step adds to the trace, by the kind of the step.\<close>

lemma thread_step_effect:
  assumes "thread_step env cfg i c = Some c'"
  shows "\<exists>es. trace (shared c') = trace (shared c) @ es \<and>
     ((constructions es = []
         \<and> EmbeddingModel_instance (shared c') = EmbeddingModel_instance (shared c)
         \<and> assigning (pcs c' ! i) = assigning (pcs c ! i)
         \<and> (failed (pcs c ! i) \<longrightarrow> failed (pcs c' ! i)))
      \<or> (\<exists>path h. pcs c ! i = L63 path \<and> pcs c' ! i = L63_assign h
            \<and> EmbeddingModel_instance (shared c') = EmbeddingModel_instance (shared c)
            \<and> constructions es = [(construct_args cfg path, Inr h)])
      \<or> (\<exists>path e. pcs c ! i = L63 path \<and> pcs c' ! i = Exit_raise e
            \<and> EmbeddingModel_instance (shared c') = EmbeddingModel_instance (shared c)
            \<and> constructions es = [(construct_args cfg path, Inl e)])
      \<or> (\<exists>h. pcs c ! i = L63_assign h \<and> pcs c' ! i = L71 \<and> es = []
            \<and> EmbeddingModel_instance (shared c') = Some h))"
proof -
  from thread_step_length [OF assms] have i: "i < length (pcs c)" by simp
  from download_model_trace [of env cfg "shared c"] obtain ds where
    ds: "trace (snd (download_model env cfg (shared c))) = trace (shared c) @ ds"
      "constructions ds = []" by blast
  note di = download_model_instance [of env cfg "shared c"]
  show ?thesis
  proof (cases "pcs c ! i")
    case L62
    with assms i ds di show ?thesis
      by (auto simp: thread_step_def goto_def split: prod.splits sum.splits)
  next
    case (L63 path)
    with assms i show ?thesis
      by (auto simp: thread_step_def goto_def Let_def emit_def split: prod.splits sum.splits)
  qed (use assms i in \<open>auto simp: thread_step_def goto_def emit_def split: if_splits\<close>)
qed

lemma assigning_holds_lock: "assigning p \<Longrightarrow> holds_lock p"
  by (cases p) auto

lemma built_simps [simp]: "built (a, Inr h)" "\<not> built (a, Inl e)"
  by (simp_all add: built_def)

lemma trace_ok_step:
  assumes m: "mutex c" and l: "local_ok c" and t: "trace_ok st0 c"
    and s: "thread_step env cfg i c = Some c'"
  shows "trace_ok st0 c'"
proof -
  let ?inst = "\<lambda>c. EmbeddingModel_instance (shared c)"
  let ?A = "\<lambda>c. \<exists>k<length (pcs c). assigning (pcs c ! k)"
  let ?F = "\<lambda>c. \<exists>k<length (pcs c). failed (pcs c ! k)"
  from thread_step_length [OF s] have len: "length (pcs c') = length (pcs c)"
    and i: "i < length (pcs c)" by simp_all
  note oth = thread_step_others [OF s]
  from l have ok: "pc_ok (?inst c) (pcs c ! i)" using i by (simp add: local_ok_def)
  from m have uniq: "\<And>k j. k < length (pcs c) \<Longrightarrow> j < length (pcs c) \<Longrightarrow>
                 holds_lock (pcs c ! k) \<Longrightarrow> holds_lock (pcs c ! j) \<Longrightarrow> k = j"
    by (auto simp: mutex_def)
  from t obtain es0 where tr0: "trace (shared c) = trace st0 @ es0"
    and cnt: "length (filter built (constructions es0)) = (if ?inst c \<noteq> None \<or> ?A c then 1 else 0)"
    and bad: "(\<exists>p\<in>set (constructions es0). \<not> built p) \<longrightarrow> ?F c"
    by (auto simp: trace_ok_def)
  have A_same: "?A c' \<longleftrightarrow> ?A c" if "assigning (pcs c' ! i) = assigning (pcs c ! i)"
  proof -
    have "assigning (pcs c' ! k) = assigning (pcs c ! k)" for k
      using oth [of k] that by (cases "k = i") auto
    then show ?thesis by (simp add: len)
  qed
  have F_mono: "?F c'" if "?F c" "failed (pcs c ! i) \<longrightarrow> failed (pcs c' ! i)"
  proof -
    from that(1) obtain k where k: "k < length (pcs c)" "failed (pcs c ! k)" by blast
    with oth [of k] that(2) have "failed (pcs c' ! k)" by (cases "k = i") auto
    with k(1) show ?thesis by (auto simp: len)
  qed
  have only_i: "k = i" if "k < length (pcs c)" "assigning (pcs c ! k)" "holds_lock (pcs c ! i)" for k
    using uniq [OF that(1) i assigning_holds_lock [OF that(2)] that(3)] .
  from thread_step_effect [OF s] obtain es where tr: "trace (shared c') = trace (shared c) @ es"
    and eff: "(constructions es = [] \<and> ?inst c' = ?inst c
         \<and> assigning (pcs c' ! i) = assigning (pcs c ! i)
         \<and> (failed (pcs c ! i) \<longrightarrow> failed (pcs c' ! i)))
      \<or> (\<exists>path h. pcs c ! i = L63 path \<and> pcs c' ! i = L63_assign h \<and> ?inst c' = ?inst c
            \<and> constructions es = [(construct_args cfg path, Inr h)])
      \<or> (\<exists>path e. pcs c ! i = L63 path \<and> pcs c' ! i = Exit_raise e \<and> ?inst c' = ?inst c
            \<and> constructions es = [(construct_args cfg path, Inl e)])
      \<or> (\<exists>h. pcs c ! i = L63_assign h \<and> pcs c' ! i = L71 \<and> es = [] \<and> ?inst c' = Some h)"
    by blast
  from tr tr0 have tr': "trace (shared c') = trace st0 @ (es0 @ es)" by simp
  have "length (filter built (constructions (es0 @ es)))
            = (if ?inst c' \<noteq> None \<or> ?A c' then 1 else 0)
        \<and> ((\<exists>p\<in>set (constructions (es0 @ es)). \<not> built p) \<longrightarrow> ?F c')"
    using eff
  proof (elim disjE conjE exE)
    assume a: "constructions es = []" "?inst c' = ?inst c"
      "assigning (pcs c' ! i) = assigning (pcs c ! i)"
      "failed (pcs c ! i) \<longrightarrow> failed (pcs c' ! i)"
    from cnt a(1,2) A_same [OF a(3)] bad F_mono [OF _ a(4)] show ?thesis by auto
  next
    fix path h
    assume a: "pcs c ! i = L63 path" "pcs c' ! i = L63_assign h" "?inst c' = ?inst c"
      "constructions es = [(construct_args cfg path, Inr h)]"
    from ok a(1) have none: "?inst c = None" by simp
    have noA: "\<not> ?A c" using only_i a(1) by fastforce
    from i a(2) have A': "?A c'" by (auto simp: len)
    have "failed (pcs c ! i) \<longrightarrow> failed (pcs c' ! i)" using a(1) by simp
    with cnt none noA A' a(3,4) bad F_mono show ?thesis by auto
  next
    fix path e
    assume a: "pcs c ! i = L63 path" "pcs c' ! i = Exit_raise e" "?inst c' = ?inst c"
      "constructions es = [(construct_args cfg path, Inl e)]"
    have "assigning (pcs c' ! i) = assigning (pcs c ! i)" using a(1,2) by simp
    note A_same [OF this]
    moreover from i a(2) have "?F c'" by (auto simp: len)
    ultimately show ?thesis using cnt a(3,4) by auto
  next
    fix h
    assume a: "pcs c ! i = L63_assign h" "pcs c' ! i = L71" "es = []" "?inst c' = Some h"
    from i a(1) have "?A c" by auto
    moreover have "failed (pcs c ! i) \<longrightarrow> failed (pcs c' ! i)" using a(1) by simp
    ultimately show ?thesis using cnt a(3,4) bad F_mono by auto
  qed
  with tr' show ?thesis unfolding trace_ok_def by blast
qed

subsection \<open>Every interleaving\<close>

lemma load_inv_step:
  "load_inv st0 c \<Longrightarrow> thread_step env cfg i c = Some c' \<Longrightarrow> load_inv st0 c'"
  unfolding load_inv_def using mutex_step local_ok_step trace_ok_step by blast

lemma load_inv_callers:
  "EmbeddingModel_instance st = None \<Longrightarrow> load_inv st (callers n st)"
  by (auto simp: load_inv_def mutex_def local_ok_def trace_ok_def callers_def)

lemma load_inv_run:
  "load_inv st0 c \<Longrightarrow> run env cfg sched c = Some c' \<Longrightarrow> load_inv st0 c'"
proof (induction sched arbitrary: c)
  case Nil
  then show ?case by simp
next
  case (Cons i sched)
  from Cons.prems(2) obtain c1 where s: "thread_step env cfg i c = Some c1"
    and r: "run env cfg sched c1 = Some c'"
    by (auto split: option.splits)
  from Cons.prems(1) s have "load_inv st0 c1" by (rule load_inv_step)
  from this r show ?case by (rule Cons.IH)
qed

lemma run_length:
  "run env cfg sched c = Some c' \<Longrightarrow> length (pcs c') = length (pcs c)"
proof (induction sched arbitrary: c)
  case Nil
  then show ?case by simp
next
  case (Cons i sched)
  then show ?case using thread_step_length by (fastforce split: option.splits)
qed

subsection \<open>No deadlock, and every interleaving ends\<close>

lemma holder_can_step:
  "i < length (pcs c) \<Longrightarrow> holds_lock (pcs c ! i) \<Longrightarrow> thread_step env cfg i c \<noteq> None"
  by (cases "pcs c ! i")
     (auto simp: thread_step_def Let_def split: prod.splits sum.splits)

lemma stuck_thread:
  "i < length (pcs c) \<Longrightarrow> thread_step env cfg i c = None \<Longrightarrow>
   finished (pcs c ! i) \<or> (pcs c ! i = L58 \<and> lock_held c)"
  by (cases "pcs c ! i")
     (auto simp: thread_step_def Let_def split: prod.splits sum.splits if_splits)

lemma no_deadlock:
  assumes m: "mutex c" and stuck: "\<forall>i<length (pcs c). thread_step env cfg i c = None"
  shows "\<forall>i<length (pcs c). finished (pcs c ! i)"
proof (intro allI impI)
  fix i assume i: "i < length (pcs c)"
  with stuck have "thread_step env cfg i c = None" by blast
  with i have "finished (pcs c ! i) \<or> (pcs c ! i = L58 \<and> lock_held c)" by (rule stuck_thread)
  then show "finished (pcs c ! i)"
  proof
    assume "pcs c ! i = L58 \<and> lock_held c"
    with m obtain k where k: "k < length (pcs c)" "holds_lock (pcs c ! k)"
      by (auto simp: mutex_def)
    then have "thread_step env cfg k c \<noteq> None" by (rule holder_can_step)
    moreover from stuck k(1) have "thread_step env cfg k c = None" by simp
    ultimately show ?thesis by simp
  qed
qed

lemma sum_list_update_less:
  fixes f :: "'a \<Rightarrow> nat"
  shows "i < length xs \<Longrightarrow> f x < f (xs ! i) \<Longrightarrow>
   sum_list (map f (xs[i := x])) < sum_list (map f xs)"
proof (induction xs arbitrary: i)
  case Nil
  then show ?case by simp
next
  case (Cons y ys)
  then show ?case by (cases i) (auto simp: add_less_mono)
qed

lemma thread_step_pcs:
  assumes "thread_step env cfg i c = Some c'"
  shows "\<exists>p. pcs c' = (pcs c)[i := p] \<and> remaining p < remaining (pcs c ! i)"
  using assms
  by (cases "pcs c ! i")
     (auto simp: thread_step_def goto_def Let_def split: prod.splits sum.splits if_splits)

lemma work_step: "thread_step env cfg i c = Some c' \<Longrightarrow> work c' < work c"
proof -
  assume s: "thread_step env cfg i c = Some c'"
  from thread_step_length [OF s] have i: "i < length (pcs c)" by simp
  from thread_step_pcs [OF s] obtain p where p: "pcs c' = (pcs c)[i := p]"
    "remaining p < remaining (pcs c ! i)" by blast
  from i p(2) have "sum_list (map remaining ((pcs c)[i := p])) < sum_list (map remaining (pcs c))"
    by (rule sum_list_update_less)
  with p(1) show ?thesis by (simp add: work_def)
qed

lemma run_work: "run env cfg sched c = Some c' \<Longrightarrow> length sched + work c' \<le> work c"
proof (induction sched arbitrary: c)
  case Nil
  then show ?case by simp
next
  case (Cons i sched)
  from Cons.prems obtain c1 where s: "thread_step env cfg i c = Some c1"
    and r: "run env cfg sched c1 = Some c'"
    by (auto split: option.splits)
  from Cons.IH [OF r] work_step [OF s] show ?case by simp
qed

lemma work_callers: "work (callers n st) = 8 * n"
  by (simp add: work_def callers_def sum_list_replicate)

lemma run_append:
  "run env cfg (xs @ ys) c =
     (case run env cfg xs c of None \<Rightarrow> None | Some c1 \<Rightarrow> run env cfg ys c1)"
  by (induction xs arbitrary: c) (auto split: option.splits)

lemma can_finish:
  assumes "mutex c"
  shows "\<exists>sched c'. run env cfg sched c = Some c'
           \<and> (\<forall>i<length (pcs c'). finished (pcs c' ! i))"
  using assms
proof (induction "work c" arbitrary: c rule: less_induct)
  case less
  show ?case
  proof (cases "\<forall>i<length (pcs c). thread_step env cfg i c = None")
    case True
    with less.prems have "\<forall>i<length (pcs c). finished (pcs c ! i)" by (rule no_deadlock)
    then have "run env cfg [] c = Some c \<and> (\<forall>i<length (pcs c). finished (pcs c ! i))" by simp
    then show ?thesis by blast
  next
    case False
    then obtain i c1 where s: "thread_step env cfg i c = Some c1" by auto
    from less.prems s have "mutex c1" by (rule mutex_step)
    with less.hyps [OF work_step [OF s]] obtain sched c'
      where "run env cfg sched c1 = Some c'" "\<forall>i<length (pcs c'). finished (pcs c' ! i)"
      by blast
    with s have "run env cfg (i # sched) c = Some c'
                 \<and> (\<forall>i<length (pcs c'). finished (pcs c' ! i))" by simp
    then show ?thesis by blast
  qed
qed

lemma instance_stable_step:
  assumes "local_ok c" "thread_step env cfg i c = Some c'"
    "EmbeddingModel_instance (shared c) \<noteq> None"
  shows "EmbeddingModel_instance (shared c') = EmbeddingModel_instance (shared c)"
proof -
  from thread_step_length [OF assms(2)] have i: "i < length (pcs c)" by simp
  with assms(1) have "pc_ok (EmbeddingModel_instance (shared c)) (pcs c ! i)"
    by (simp add: local_ok_def)
  with thread_step_instance [OF assms(2)] assms(3) show ?thesis by auto
qed

lemma instance_stable_run:
  assumes "load_inv st0 c" "run env cfg sched c = Some c'"
    "EmbeddingModel_instance (shared c) \<noteq> None"
  shows "EmbeddingModel_instance (shared c') = EmbeddingModel_instance (shared c)"
  using assms
proof (induction sched arbitrary: c)
  case Nil
  then show ?case by simp
next
  case (Cons i sched)
  from Cons.prems(2) obtain c1 where s: "thread_step env cfg i c = Some c1"
    and r: "run env cfg sched c1 = Some c'"
    by (auto split: option.splits)
  from Cons.prems(1) s have inv1: "load_inv st0 c1" by (rule load_inv_step)
  from Cons.prems(1) have "local_ok c" by (simp add: load_inv_def)
  from instance_stable_step [OF this s Cons.prems(3)]
  have eq: "EmbeddingModel_instance (shared c1) = EmbeddingModel_instance (shared c)" .
  with Cons.prems(3) have "EmbeddingModel_instance (shared c1) \<noteq> None" by simp
  from Cons.IH [OF inv1 r this] eq show ?case by simp
qed

subsection \<open>Single construction under contention\<close>

text \<open>
  Claim C2. Let \<open>n\<close> callers enter \<^verbatim>\<open>_load_llama\<close> together while no handle exists, and
  let them be interleaved in any way. At every moment at most one construction has
  succeeded, and every caller that has returned holds the handle stored in
  \<^verbatim>\<open>_instance\<close>; when all \<open>n\<close> callers have returned a handle, the constructor was
  invoked exactly once. No interleaving deadlocks, none is longer than \<open>8 n\<close> steps, and
  each can be continued until every caller has finished. Once \<^verbatim>\<open>_instance\<close> holds a
  handle it keeps it: a later call returns it from the first check, with no lock taken
  and the state unchanged, and a caller still at the first check goes to the unlocked
  \<^verbatim>\<open>return\<close> and returns it.
\<close>

theorem single_construction_under_contention:
  assumes cold: "EmbeddingModel_instance st = None"
    and run: "run env cfg sched (callers n st) = Some c"
  shows "length (filter built (constructions (new_events st (shared c)))) \<le> 1
    \<and> (\<forall>i<n. \<forall>v. pcs c ! i = Returned v
           \<longrightarrow> v \<noteq> None \<and> v = EmbeddingModel_instance (shared c))
    \<and> (0 < n \<and> (\<forall>i<n. \<exists>v. pcs c ! i = Returned v)
           \<longrightarrow> length (constructions (new_events st (shared c))) = 1)
    \<and> ((\<forall>i<n. thread_step env cfg i c = None) \<longrightarrow> (\<forall>i<n. finished (pcs c ! i)))
    \<and> length sched \<le> 8 * n
    \<and> (\<exists>sched' c'. run env cfg (sched @ sched') (callers n st) = Some c'
           \<and> (\<forall>i<n. finished (pcs c' ! i)))
    \<and> (\<forall>h. EmbeddingModel_instance (shared c) = Some h \<longrightarrow>
          load_llama env cfg (shared c) = (Inr h, shared c)
          \<and> (\<forall>i<n. pcs c ! i = L55 \<longrightarrow> thread_step env cfg i c = Some (goto i L56 c))
          \<and> (\<forall>i<n. pcs c ! i = L56 \<longrightarrow>
                 thread_step env cfg i c = Some (goto i (Returned (Some h)) c))
          \<and> (\<forall>sched' c'. run env cfg sched' c = Some c'
                 \<longrightarrow> EmbeddingModel_instance (shared c') = Some h))"
proof -
  let ?inst = "EmbeddingModel_instance (shared c)"
  let ?cs = "constructions (new_events st (shared c))"
  from cold have "load_inv st (callers n st)" by (rule load_inv_callers)
  from this run have inv: "load_inv st c" by (rule load_inv_run)
  then have m: "mutex c" and l: "local_ok c" and t: "trace_ok st c"
    by (simp_all add: load_inv_def)
  from run_length [OF run] have len: "length (pcs c) = n" by (simp add: callers_def)
  from l len have ok: "\<And>i. i < n \<Longrightarrow> pc_ok ?inst (pcs c ! i)" by (simp add: local_ok_def)
  from t obtain es where "trace (shared c) = trace st @ es"
    and cnt0: "length (filter built (constructions es))
            = (if ?inst \<noteq> None \<or> (\<exists>k<length (pcs c). assigning (pcs c ! k)) then 1 else 0)"
    and bad0: "(\<exists>p\<in>set (constructions es). \<not> built p)
             \<longrightarrow> (\<exists>k<length (pcs c). failed (pcs c ! k))"
    by (auto simp: trace_ok_def)
  then have es: "new_events st (shared c) = es" by (simp add: new_events_append)
  note cnt = cnt0 [folded es] and bad = bad0 [folded es]
  have A: "length (filter built ?cs) \<le> 1" using cnt by simp
  have B: "\<forall>i<n. \<forall>v. pcs c ! i = Returned v \<longrightarrow> v \<noteq> None \<and> v = ?inst"
    using ok by fastforce
  have C: "length ?cs = 1" if n: "0 < n" and all: "\<forall>i<n. \<exists>v. pcs c ! i = Returned v"
  proof -
    from all len have "\<not> (\<exists>k<length (pcs c). failed (pcs c ! k))" by fastforce
    with bad have "\<forall>p\<in>set ?cs. built p" by blast
    then have "filter built ?cs = ?cs" by simp
    moreover from n all B have "?inst \<noteq> None" by fastforce
    ultimately show ?thesis using cnt by simp
  qed
  have D: "(\<forall>i<n. thread_step env cfg i c = None) \<longrightarrow> (\<forall>i<n. finished (pcs c ! i))"
    using no_deadlock [OF m, of env cfg] len by simp
  have E: "length sched \<le> 8 * n"
    using run_work [OF run] by (simp add: work_callers)
  from can_finish [OF m, of env cfg] obtain sched' c'
    where fin: "run env cfg sched' c = Some c'" "\<forall>i<length (pcs c'). finished (pcs c' ! i)"
    by blast
  from run_length [OF fin(1)] len have "length (pcs c') = n" by simp
  with fin run have "run env cfg (sched @ sched') (callers n st) = Some c'
           \<and> (\<forall>i<n. finished (pcs c' ! i))" by (simp add: run_append)
  then have F: "\<exists>sched' c'. run env cfg (sched @ sched') (callers n st) = Some c'
           \<and> (\<forall>i<n. finished (pcs c' ! i))" by blast
  have G: "load_llama env cfg (shared c) = (Inr h, shared c)
          \<and> (\<forall>i<n. pcs c ! i = L55 \<longrightarrow> thread_step env cfg i c = Some (goto i L56 c))
          \<and> (\<forall>i<n. pcs c ! i = L56 \<longrightarrow>
                 thread_step env cfg i c = Some (goto i (Returned (Some h)) c))
          \<and> (\<forall>sched' c'. run env cfg sched' c = Some c'
                 \<longrightarrow> EmbeddingModel_instance (shared c') = Some h)"
    if h: "?inst = Some h" for h
  proof -
    have "EmbeddingModel_instance (shared c') = Some h" if "run env cfg sched' c = Some c'"
      for sched' c'
      using instance_stable_run [OF inv that] h by simp
    with h len show ?thesis by (simp add: load_llama_fast thread_step_def)
  qed
  from A B C D E F G show ?thesis by blast
qed

theorem single_construction_under_contention_witness:
  "map_option pcs (run (stub_env 0 True good_engine) default_settings
       [0, 1, 2, 0, 0, 0, 0, 0, 0, 0, 1, 1, 1, 1, 2, 2, 2, 2] (callers 3 stub_start))
     = Some [Returned (Some 1), Returned (Some 1), Returned (Some 1)]
   \<and> length (constructions (new_events stub_start
        (shared (the (run (stub_env 0 True good_engine) default_settings
           [0, 1, 2, 0, 0, 0, 0, 0, 0, 0, 1, 1, 1, 1, 2, 2, 2, 2] (callers 3 stub_start)))))) = 1"
proof -
  let ?E = "stub_env 0 True good_engine"
  let ?S = "[0, 1, 2, 0, 0, 0, 0, 0, 0, 0, 1, 1, 1, 1, 2, 2, 2, 2] :: nat list"
  let ?R = "run ?E default_settings ?S (callers 3 stub_start)"
  have cold: "EmbeddingModel_instance stub_start = None"
    by (simp add: stub_start_def init_state_def)
  have p: "map_option pcs ?R = Some [Returned (Some 1), Returned (Some 1), Returned (Some 1)]"
    by code_simp
  then obtain c where c: "?R = Some c" by (cases ?R) auto
  with p have pcs: "pcs c = [Returned (Some 1), Returned (Some 1), Returned (Some 1)]" by simp
  have all: "\<forall>i<3. \<exists>v. pcs c ! i = Returned v"
    unfolding pcs by (auto simp: less_Suc_eq numeral_3_eq_3)
  from single_construction_under_contention [OF cold c] all
  have "length (constructions (new_events stub_start (shared c))) = 1" by simp
  with p c show ?thesis by simp
qed

text \<open>
  With a single caller the steps of the thread compose to the sequential
  \<^verbatim>\<open>_load_llama\<close>: same result, same final state, lock released.
\<close>

lemma single_caller_is_load_llama:
  "\<exists>k c. run env cfg (replicate k 0) (callers 1 st) = Some c
     \<and> shared c = snd (load_llama env cfg st)
     \<and> pcs c = [case fst (load_llama env cfg st) of
                   Inl e \<Rightarrow> Propagated e | Inr h \<Rightarrow> Returned (Some h)]
     \<and> \<not> lock_held c"
proof (cases "EmbeddingModel_instance st")
  case (Some h)
  then have "run env cfg (replicate 2 0) (callers 1 st)
               = Some \<lparr>shared = st, lock_held = False, pcs = [Returned (Some h)]\<rparr>"
    by (simp add: numeral_2_eq_2 thread_step_def goto_def callers_def)
  with Some show ?thesis by (fastforce simp: load_llama_def)
next
  case None
  obtain d s1 where d: "download_model env cfg (emit Ev_lock_acquire st) = (d, s1)"
    by (cases "download_model env cfg (emit Ev_lock_acquire st)")
  have i1: "EmbeddingModel_instance s1 = None"
    using download_model_instance [of env cfg "emit Ev_lock_acquire st"] d None
    by (simp add: emit_def)
  show ?thesis
  proof (cases d)
    case (Inl e)
    with None d have "run env cfg (replicate 5 0) (callers 1 st)
        = Some \<lparr>shared = emit Ev_lock_release s1, lock_held = False, pcs = [Propagated e]\<rparr>"
      by (simp add: eval_nat_numeral thread_step_def goto_def callers_def emit_def)
    moreover from None d Inl have "load_llama env cfg st = (Inl e, emit Ev_lock_release s1)"
      by (simp add: load_llama_def load_locked_def emit_def)
    ultimately show ?thesis by fastforce
  next
    case (Inr path)
    obtain r w2 where r: "Llama env (construct_args cfg path) (world s1) = (r, w2)"
      by (cases "Llama env (construct_args cfg path) (world s1)")
    let ?s2 = "emit (Ev_Llama (construct_args cfg path) r) (s1\<lparr>world := w2\<rparr>)"
    show ?thesis
    proof (cases r)
      case (Inl e)
      with None d Inr r i1 have "run env cfg (replicate 6 0) (callers 1 st)
          = Some \<lparr>shared = emit Ev_lock_release ?s2, lock_held = False, pcs = [Propagated e]\<rparr>"
        by (simp add: eval_nat_numeral thread_step_def goto_def callers_def emit_def)
      moreover from None d Inr r Inl
      have "load_llama env cfg st = (Inl e, emit Ev_lock_release ?s2)"
        by (simp add: load_llama_def load_locked_def emit_def)
      ultimately show ?thesis by fastforce
    next
      case h: (Inr h)
      with None d Inr r i1 have "run env cfg (replicate 8 0) (callers 1 st)
          = Some \<lparr>shared = emit Ev_lock_release (?s2\<lparr>EmbeddingModel_instance := Some h\<rparr>),
                  lock_held = False, pcs = [Returned (Some h)]\<rparr>"
        by (simp add: eval_nat_numeral thread_step_def goto_def callers_def emit_def)
      moreover from None d Inr r h
      have "load_llama env cfg st
              = (Inr h, emit Ev_lock_release (?s2\<lparr>EmbeddingModel_instance := Some h\<rparr>))"
        by (simp add: load_llama_def load_locked_def emit_def)
      ultimately show ?thesis by fastforce
    qed
  qed
qed

end
